theory Spec2Isabelle
  imports Main "HOL-Library.Sublist" "HOL-Library.Word"
begin

section \<open>Rate limiter (src/src/server/index.ts, isRateLimited)\<close>

text \<open>
  The server keeps one table \<^verbatim>\<open>rateLimitMap\<close> from a client address to
  \<^verbatim>\<open>{ count, resetAt }\<close>. Times are the integer milliseconds of \<^verbatim>\<open>Date.now()\<close>.
  The table is threaded through explicitly: \<open>isRateLimited\<close> returns the answer and the
  table as the call leaves it.
\<close>

record rl_entry =
  count :: nat
  resetAt :: int

type_synonym rateLimitMap = "string \<rightharpoonup> rl_entry"

definition RATE_LIMIT_WINDOW :: int where
  "RATE_LIMIT_WINDOW = 60 * 1000"

definition RATE_LIMIT_MAX :: nat where
  "RATE_LIMIT_MAX = 30"

definition isRateLimited :: "int \<Rightarrow> string \<Rightarrow> rateLimitMap \<Rightarrow> bool \<times> rateLimitMap" where
  "isRateLimited now ip m =
     (case m ip of
        None \<Rightarrow> (False, m(ip \<mapsto> \<lparr>count = 1, resetAt = now + RATE_LIMIT_WINDOW\<rparr>))
      | Some entry \<Rightarrow>
          if now > resetAt entry
          then (False, m(ip \<mapsto> \<lparr>count = 1, resetAt = now + RATE_LIMIT_WINDOW\<rparr>))
          else (count entry + 1 > RATE_LIMIT_MAX,
                m(ip \<mapsto> entry\<lparr>count := count entry + 1\<rparr>)))"

text \<open>
  A run of the limiter over a sequence of requests \<open>(time, client)\<close>, in arrival order;
  the result lists, per request, the client and whether it was limited.
\<close>

fun run_requests :: "(int \<times> string) list \<Rightarrow> rateLimitMap \<Rightarrow> (string \<times> bool) list" where
  "run_requests [] m = []"
| "run_requests ((now, ip) # reqs) m =
     (ip, fst (isRateLimited now ip m)) # run_requests reqs (snd (isRateLimited now ip m))"

text \<open>The table as such a run leaves it.\<close>

fun table_after :: "(int \<times> string) list \<Rightarrow> rateLimitMap \<Rightarrow> rateLimitMap" where
  "table_after [] m = m"
| "table_after ((now, ip) # reqs) m = table_after reqs (snd (isRateLimited now ip m))"

definition answers_for :: "string \<Rightarrow> (string \<times> bool) list \<Rightarrow> bool list" where
  "answers_for ip rs = map snd (filter (\<lambda>r. fst r = ip) rs)"

definition requests_of :: "string \<Rightarrow> (int \<times> string) list \<Rightarrow> int list" where
  "requests_of ip reqs = map fst (filter (\<lambda>r. snd r = ip) reqs)"

text \<open>
  The answers a client gets inside one window whose counter stands at \<open>c\<close>: each request
  raises the counter first and is limited when the raised counter exceeds the limit.
\<close>

fun window_answers :: "nat \<Rightarrow> nat \<Rightarrow> bool list" where
  "window_answers c 0 = []"
| "window_answers c (Suc k) = (Suc c > RATE_LIMIT_MAX) # window_answers (Suc c) k"

section \<open>Bucket resolver (hashPassword)\<close>

text \<open>
  \<^verbatim>\<open>Bun.hash(password)\<close> is the runtime's 64-bit hash and no code of this repository; it is
  a parameter of the model. \<^verbatim>\<open>hash.toString(16)\<close> writes the number in lower-case
  hexadecimal without leading zeros (\<^verbatim>\<open>"0"\<close> for zero), and \<^verbatim>\<open>.slice(0, 12)\<close> keeps at most
  the first twelve characters.
\<close>

definition hex_digit :: "nat \<Rightarrow> char" where
  "hex_digit d = ''0123456789abcdef'' ! d"

fun toString16 :: "nat \<Rightarrow> string" where
  "toString16 n =
     (if n < 16 then [hex_digit n] else toString16 (n div 16) @ [hex_digit (n mod 16)])"

declare toString16.simps [simp del]

definition slice :: "nat \<Rightarrow> nat \<Rightarrow> 'a list \<Rightarrow> 'a list" where
  "slice i j xs = take (j - i) (drop i xs)"

definition hashPassword :: "(string \<Rightarrow> 64 word) \<Rightarrow> string \<Rightarrow> string" where
  "hashPassword Bun_hash password = slice 0 12 (toString16 (unat (Bun_hash password)))"

section \<open>The storage tree\<close>

text \<open>
  The server keeps everything on disk under \<^verbatim>\<open><data_dir>/uploads/<bucket>/<share>/<file>\<close>
  and reaches it through \<^verbatim>\<open>node:fs/promises\<close> and \<^verbatim>\<open>Bun.write\<close>. The model is a tree:
  a regular file with its bytes and modification time, a directory with its modification
  time and its entries in \<^verbatim>\<open>readdir\<close> order, and \<open>Broken\<close> for an entry that a listing
  of its parent shows, not as a directory, and that cannot be accessed itself (a dangling
  symbolic link, for one): \<^verbatim>\<open>stat\<close>, \<^verbatim>\<open>readdir\<close>, reads and writes on it fail. A file's
  size is the length of its contents. Every failing call of the source is an \<open>Inl\<close> of
  the model.
\<close>

datatype fs_error = ENOENT | ENOTDIR | EISDIR | EACCES | EEXIST

datatype node =
    File (contents: string) (fmtime: int)
  | Dir (dmtime: int) (entries: "(string \<times> node) list")
  | Broken

type_synonym path = "string list"

text \<open>
  A path is the list of its segments below the root of the tree. \<^verbatim>\<open>path.join\<close> joins its
  arguments with \<^verbatim>\<open>/\<close> and normalises the result: empty and \<^verbatim>\<open>.\<close> segments are dropped,
  \<^verbatim>\<open>..\<close> removes the segment before it (and is dropped at the root, as the resolution of
  an absolute path does). The first argument of \<open>join\<close> is a directory already in this
  form; \<open>data_dir\<close> of the configuration is taken resolved in this way.
\<close>

fun split_slash :: "string \<Rightarrow> string list" where
  "split_slash [] = [[]]"
| "split_slash (c # cs) =
     (if c = CHR ''/'' then [] # split_slash cs
      else (case split_slash cs of [] \<Rightarrow> [[c]] | s # ss \<Rightarrow> (c # s) # ss))"

fun normalize_onto :: "path \<Rightarrow> string list \<Rightarrow> path" where
  "normalize_onto stack [] = rev stack"
| "normalize_onto stack (s # ss) =
     (if s = [] \<or> s = ''.'' then normalize_onto stack ss
      else if s = ''..'' then normalize_onto (case stack of [] \<Rightarrow> [] | _ # st \<Rightarrow> st) ss
      else normalize_onto (s # stack) ss)"

definition join :: "path \<Rightarrow> string list \<Rightarrow> path" where
  "join dir parts = normalize_onto (rev dir) (concat (map split_slash parts))"

text \<open>
  \<^verbatim>\<open>path.join\<close> keeps a slash at the end of what it joins: its result ends in a slash
  exactly when the last argument that is not empty does. The segments do not show this,
  so it is told apart here.
\<close>

definition join_slash :: "string list \<Rightarrow> bool" where
  "join_slash parts =
     (case filter (\<lambda>p. p \<noteq> []) parts of [] \<Rightarrow> False | p # ps \<Rightarrow> last (last (p # ps)) = CHR ''/'')"

fun lookup :: "node \<Rightarrow> path \<Rightarrow> node option" where
  "lookup n [] = Some n"
| "lookup (Dir m es) (s # p) = (case map_of es s of None \<Rightarrow> None | Some c \<Rightarrow> lookup c p)"
| "lookup (File c m) (s # p) = None"
| "lookup Broken (s # p) = None"

definition readdir :: "node \<Rightarrow> path \<Rightarrow> fs_error + string list" where
  "readdir root p =
     (case lookup root p of
        None \<Rightarrow> Inl ENOENT
      | Some (Dir m es) \<Rightarrow> Inr (map fst es)
      | Some (File c m) \<Rightarrow> Inl ENOTDIR
      | Some Broken \<Rightarrow> Inl EACCES)"

text \<open>\<^verbatim>\<open>(await stat(p)).mtimeMs\<close>, in integer milliseconds.\<close>

definition stat_mtimeMs :: "node \<Rightarrow> path \<Rightarrow> fs_error + int" where
  "stat_mtimeMs root p =
     (case lookup root p of
        None \<Rightarrow> Inl ENOENT
      | Some (Dir m es) \<Rightarrow> Inr m
      | Some (File c m) \<Rightarrow> Inr m
      | Some Broken \<Rightarrow> Inl EACCES)"

text \<open>\<^verbatim>\<open>await Bun.file(p).exists()\<close>: whether a regular file is there.\<close>

definition file_exists :: "node \<Rightarrow> path \<Rightarrow> bool" where
  "file_exists root p = (case lookup root p of Some (File c m) \<Rightarrow> True | _ \<Rightarrow> False)"

fun upd_entry :: "string \<Rightarrow> node \<Rightarrow> (string \<times> node) list \<Rightarrow> (string \<times> node) list" where
  "upd_entry s n [] = [(s, n)]"
| "upd_entry s n ((k, v) # es) = (if k = s then (s, n) # es else (k, v) # upd_entry s n es)"

definition remove_entry :: "string \<Rightarrow> (string \<times> node) list \<Rightarrow> (string \<times> node) list" where
  "remove_entry s es = filter (\<lambda>e. fst e \<noteq> s) es"

text \<open>
  \<^verbatim>\<open>Bun.write(path, data)\<close> creates or replaces the regular file at \<open>path\<close>, creating the
  directories above it that are missing. It fails when the target is a directory, when
  a segment above it is a regular file, and on an entry that cannot be accessed. The
  second argument is what is at the path so far.
\<close>

fun put_file :: "int \<Rightarrow> string \<Rightarrow> path \<Rightarrow> node option \<Rightarrow> fs_error + node" where
  "put_file now d [] None = Inr (File d now)"
| "put_file now d [] (Some (File c m)) = Inr (File d now)"
| "put_file now d [] (Some (Dir m es)) = Inl EISDIR"
| "put_file now d [] (Some Broken) = Inl EACCES"
| "put_file now d (s # p) None =
     (case put_file now d p None of Inl e \<Rightarrow> Inl e | Inr n \<Rightarrow> Inr (Dir now [(s, n)]))"
| "put_file now d (s # p) (Some (Dir m es)) =
     (case put_file now d p (map_of es s) of
        Inl e \<Rightarrow> Inl e
      | Inr n \<Rightarrow> Inr (Dir (if map_of es s = None then now else m) (upd_entry s n es)))"
| "put_file now d (s # p) (Some (File c m)) = Inl ENOTDIR"
| "put_file now d (s # p) (Some Broken) = Inl EACCES"

text \<open>
  \<^verbatim>\<open>Bun.write\<close> on a path that ends in a slash throws \<^verbatim>\<open>EISDIR\<close> and writes nothing;
  \<open>slash\<close> says whether the path does.
\<close>

definition Bun_write :: "int \<Rightarrow> string \<Rightarrow> path \<Rightarrow> bool \<Rightarrow> node \<Rightarrow> fs_error + node" where
  "Bun_write now d p slash root = (if slash then Inl EISDIR else put_file now d p (Some root))"

text \<open>\<^verbatim>\<open>mkdir(path, { recursive: true })\<close>: an existing directory is left as it is.\<close>

fun mkdir_p :: "int \<Rightarrow> path \<Rightarrow> node option \<Rightarrow> fs_error + node" where
  "mkdir_p now [] None = Inr (Dir now [])"
| "mkdir_p now [] (Some (Dir m es)) = Inr (Dir m es)"
| "mkdir_p now [] (Some (File c m)) = Inl EEXIST"
| "mkdir_p now [] (Some Broken) = Inl EACCES"
| "mkdir_p now (s # p) None =
     (case mkdir_p now p None of Inl e \<Rightarrow> Inl e | Inr n \<Rightarrow> Inr (Dir now [(s, n)]))"
| "mkdir_p now (s # p) (Some (Dir m es)) =
     (case mkdir_p now p (map_of es s) of
        Inl e \<Rightarrow> Inl e
      | Inr n \<Rightarrow> Inr (Dir (if map_of es s = None then now else m) (upd_entry s n es)))"
| "mkdir_p now (s # p) (Some (File c m)) = Inl ENOTDIR"
| "mkdir_p now (s # p) (Some Broken) = Inl EACCES"

text \<open>
  \<^verbatim>\<open>rm(path, { recursive })\<close> of \<^verbatim>\<open>node:fs/promises\<close>. It fails on a missing path. A
  directory is removed, with all below it, only when \<open>recursive\<close> is set: without the
  option \<^verbatim>\<open>rm\<close> rejects a directory, also an empty one, with \<^verbatim>\<open>EISDIR\<close>, as the POSIX
  command it is modelled on does.
\<close>

fun rm :: "int \<Rightarrow> bool \<Rightarrow> path \<Rightarrow> node \<Rightarrow> fs_error + node" where
  "rm now recursive [] n = Inl EACCES"
| "rm now recursive (s # p) (Dir m es) =
     (case map_of es s of
        None \<Rightarrow> Inl ENOENT
      | Some c \<Rightarrow>
          if p = [] then
            (case c of
               File d m' \<Rightarrow> Inr (Dir now (remove_entry s es))
             | Dir m' sub \<Rightarrow>
                 if recursive then Inr (Dir now (remove_entry s es)) else Inl EISDIR
             | Broken \<Rightarrow> Inl EACCES)
          else
            (case rm now recursive p c of
               Inl e \<Rightarrow> Inl e
             | Inr c' \<Rightarrow> Inr (Dir m (upd_entry s c' es))))"
| "rm now recursive (s # p) (File c m) = Inl ENOTDIR"
| "rm now recursive (s # p) Broken = Inl EACCES"

section \<open>Quota tracker (getDirSize)\<close>

text \<open>
  \<^verbatim>\<open>getDirSize\<close> lists the directory and adds, entry by entry, the size of a file or the
  result of the recursive call for a directory. The whole loop stands in one
  \<^verbatim>\<open>try\<close>: a failing \<^verbatim>\<open>readdir\<close> gives 0, and a failing \<^verbatim>\<open>stat\<close> leaves the loop with
  the sum reached so far. \<open>tot\<close> is the source's \<^verbatim>\<open>total\<close>.
\<close>

fun getDirSize_node :: "node \<Rightarrow> nat"
  and dirSizeLoop :: "(string \<times> node) list \<Rightarrow> nat \<Rightarrow> nat" where
  "getDirSize_node (Dir m es) = dirSizeLoop es 0"
| "getDirSize_node (File c m) = 0"
| "getDirSize_node Broken = 0"
| "dirSizeLoop [] tot = tot"
| "dirSizeLoop ((name, Dir m sub) # rest) tot =
     dirSizeLoop rest (tot + getDirSize_node (Dir m sub))"
| "dirSizeLoop ((name, File c m) # rest) tot = dirSizeLoop rest (tot + length c)"
| "dirSizeLoop ((name, Broken) # rest) tot = tot"

definition getDirSize :: "node \<Rightarrow> path \<Rightarrow> nat" where
  "getDirSize root dirPath =
     (case lookup root dirPath of None \<Rightarrow> 0 | Some n \<Rightarrow> getDirSize_node n)"

text \<open>
  For comparison, the recursive byte sum of a subtree: the sizes of all regular files in
  it; and whether every entry of a subtree can be accessed.
\<close>

fun total_bytes :: "node \<Rightarrow> nat" and total_bytes_entries :: "(string \<times> node) list \<Rightarrow> nat" where
  "total_bytes (File c m) = length c"
| "total_bytes (Dir m es) = total_bytes_entries es"
| "total_bytes Broken = 0"
| "total_bytes_entries [] = 0"
| "total_bytes_entries ((name, n) # rest) = total_bytes n + total_bytes_entries rest"

fun accessible :: "node \<Rightarrow> bool" and accessible_entries :: "(string \<times> node) list \<Rightarrow> bool" where
  "accessible (File c m) = True"
| "accessible (Dir m es) = accessible_entries es"
| "accessible Broken = False"
| "accessible_entries [] = True"
| "accessible_entries ((name, n) # rest) = (accessible n \<and> accessible_entries rest)"

section \<open>Configuration, requests and responses\<close>

text \<open>
  The configuration as \<^verbatim>\<open>config.ts\<close> declares it; \<open>data_dir\<close> is held as a resolved path.
\<close>

record config =
  port :: nat
  data_dir :: path
  passwords :: "string list"
  max_file_size_mb :: int
  share_ttl_days :: int
  max_bucket_size_mb :: int

text \<open>
  A form field holds a \<^verbatim>\<open>File\<close> (its name and bytes) or a string. Of a request the model
  keeps the headers the handlers read and the form fields \<^verbatim>\<open>files\<close> and \<^verbatim>\<open>burn\<close>.
\<close>

datatype form_value = FileV (fname: string) (fdata: string) | TextV string

record request =
  x_forwarded_for :: "string option"
  x_real_ip :: "string option"
  x_password :: "string option"
  form_files :: "form_value list"
  form_burn :: "form_value option"

text \<open>
  The responses of the three handlers. \<open>QuotaExceeded\<close> carries the number printed in
  \<^verbatim>\<open>Quota exceeded. ${availableMb}MB available.\<close>; \<open>QuotaJson\<close> carries \<open>used\<close>, \<open>max\<close> and
  \<open>available\<close>; a download carries the file name, the content type and the body, or the
  archive name and the archive's entries. A body is what reading the file gives when the
  response is streamed. \<open>ServerError\<close> is an exception that leaves the handler.
\<close>

datatype response =
    Unauthorized
  | NoFilesProvided
  | InvalidPath
  | NotFound
  | TooManyRequests
  | QuotaExceeded int
  | ShareUrl string
  | QuotaJson int int int
  | FileResponse string string "fs_error + string"
  | ZipResponse string "(string \<times> (fs_error + string)) list"
  | ServerError fs_error

definition read_file :: "node \<Rightarrow> path \<Rightarrow> fs_error + string" where
  "read_file root p =
     (case lookup root p of
        None \<Rightarrow> Inl ENOENT
      | Some (File c m) \<Rightarrow> Inr c
      | Some (Dir m es) \<Rightarrow> Inl EISDIR
      | Some Broken \<Rightarrow> Inl EACCES)"

text \<open>
  A header value is a byte string, each byte one character of the JavaScript string. Of
  the white space and line terminators that \<^verbatim>\<open>String.prototype.trim\<close> strips, the
  characters below \<open>0x100\<close> are the space, \<open>0x09\<close> to \<open>0x0D\<close>, and the no-break space
  \<open>0xA0\<close>.
\<close>

definition is_space :: "char \<Rightarrow> bool" where
  "is_space c =
     (c \<in> set [CHR '' '', CHR 0x09, CHR 0x0A, CHR 0x0B, CHR 0x0C, CHR 0x0D, CHR 0xA0])"

definition trim :: "string \<Rightarrow> string" where
  "trim s = rev (dropWhile is_space (rev (dropWhile is_space s)))"

definition getClientIp :: "request \<Rightarrow> string" where
  "getClientIp req =
     (case x_forwarded_for req of
        Some v \<Rightarrow> trim (takeWhile (\<lambda>c. c \<noteq> CHR '','') v)
      | None \<Rightarrow> (case x_real_ip req of Some v \<Rightarrow> v | None \<Rightarrow> ''unknown''))"

section \<open>Quota query (handleQuota)\<close>

definition handleQuota ::
  "config \<Rightarrow> (string \<Rightarrow> 64 word) \<Rightarrow> int \<Rightarrow> request \<Rightarrow> rateLimitMap \<Rightarrow> node
     \<Rightarrow> response \<times> rateLimitMap" where
  "handleQuota cfg Bun_hash now req rl root =
     (let ip = getClientIp req;
          (limited, rl') = isRateLimited now ip rl
      in if limited then (TooManyRequests, rl')
         else
           (case x_password req of
              None \<Rightarrow> (Unauthorized, rl')
            | Some password \<Rightarrow>
                if password = [] \<or> password \<notin> set (passwords cfg) then (Unauthorized, rl')
                else
                  let bucket = hashPassword Bun_hash password;
                      bucketDir = join (data_dir cfg) [''uploads'', bucket];
                      used = int (getDirSize root bucketDir);
                      max = max_bucket_size_mb cfg * 1024 * 1024
                  in (QuotaJson used max (max - used), rl')))"

section \<open>Upload (handleUpload)\<close>

fun uploadSize :: "form_value list \<Rightarrow> nat" where
  "uploadSize [] = 0"
| "uploadSize (FileV name d # files) = length d + uploadSize files"
| "uploadSize (TextV t # files) = uploadSize files"

text \<open>
  The loop that saves the files. An exception of \<^verbatim>\<open>Bun.write\<close> ends it and leaves the
  files written before in place, so the result is the error, if any, and the tree.
\<close>

fun write_files :: "int \<Rightarrow> path \<Rightarrow> form_value list \<Rightarrow> node \<Rightarrow> fs_error option \<times> node" where
  "write_files now shareDir [] root = (None, root)"
| "write_files now shareDir (FileV name d # files) root =
     (case Bun_write now d (join shareDir [name]) (join_slash [name]) root of
        Inl e \<Rightarrow> (Some e, root)
      | Inr root' \<Rightarrow> write_files now shareDir files root')"
| "write_files now shareDir (TextV t # files) root = write_files now shareDir files root"

text \<open>
  \<open>shareId\<close> is the result of \<^verbatim>\<open>nanoid(8)\<close> in this request, \<open>now\<close> the time of the writes.
\<close>

definition handleUpload ::
  "config \<Rightarrow> (string \<Rightarrow> 64 word) \<Rightarrow> string \<Rightarrow> int \<Rightarrow> request \<Rightarrow> node \<Rightarrow> response \<times> node" where
  "handleUpload cfg Bun_hash shareId now req root =
     (case x_password req of
        None \<Rightarrow> (Unauthorized, root)
      | Some password \<Rightarrow>
          if password = [] \<or> password \<notin> set (passwords cfg) then (Unauthorized, root)
          else
            let files = form_files req in
            if files = [] then (NoFilesProvided, root)
            else
              let bucket = hashPassword Bun_hash password;
                  bucketDir = join (data_dir cfg) [''uploads'', bucket];
                  currentSize = int (getDirSize root bucketDir);
                  maxBytes = max_bucket_size_mb cfg * 1024 * 1024
              in if currentSize + int (uploadSize files) > maxBytes
                 then (QuotaExceeded ((maxBytes - currentSize) div (1024 * 1024)), root)
                 else
                   let shareDir = join bucketDir [shareId] in
                   (case mkdir_p now shareDir (Some root) of
                      Inl e \<Rightarrow> (ServerError e, root)
                    | Inr root1 \<Rightarrow>
                        (case write_files now shareDir files root1 of
                           (Some e, root2) \<Rightarrow> (ServerError e, root2)
                         | (None, root2) \<Rightarrow>
                             if form_burn req = Some (TextV ''true'')
                             then
                               (case Bun_write now [] (join shareDir [''.burn''])
                                       (join_slash [''.burn'']) root2 of
                                  Inl e \<Rightarrow> (ServerError e, root2)
                                | Inr root3 \<Rightarrow> (ShareUrl (''/d/'' @ bucket @ ''/'' @ shareId), root3))
                             else (ShareUrl (''/d/'' @ bucket @ ''/'' @ shareId), root2))))"

section \<open>Download (handleDownload) and the burn timer\<close>

text \<open>
  \<open>mime\<close> is the content type the runtime derives from a file name (\<^verbatim>\<open>Bun.file(p).type\<close>).
  Besides the response the handler returns the timers it sets: the time a timer is due
  and the directory it removes.
\<close>

definition handleDownload ::
  "config \<Rightarrow> (string \<Rightarrow> string) \<Rightarrow> int \<Rightarrow> string \<Rightarrow> node \<Rightarrow> response \<times> (int \<times> path) list" where
  "handleDownload cfg mime now pathname root =
     (let parts = filter (\<lambda>s. s \<noteq> []) (split_slash pathname) in
      if length parts < 3 then (InvalidPath, [])
      else
        let bucket = parts ! 1;
            shareId = parts ! 2
        in if bucket = [] \<or> shareId = [] then (InvalidPath, [])
           else
             let shareDir = join (data_dir cfg) [''uploads'', bucket, shareId];
                 burnFile = join shareDir [''.burn'']
             in (case readdir root shareDir of
                   Inl e \<Rightarrow> (NotFound, [])
                 | Inr allFiles \<Rightarrow>
                     let files = filter (\<lambda>f. f \<noteq> ''.burn'') allFiles in
                     if files = [] then (NotFound, [])
                     else
                       let shouldBurn = file_exists root burnFile;
                           response =
                             (if length files = 1 \<and> files ! 0 \<noteq> []
                              then
                                let filename = files ! 0 in
                                FileResponse filename
                                  (if mime filename = [] then ''application/octet-stream''
                                   else mime filename)
                                  (read_file root (join shareDir [filename]))
                              else
                                ZipResponse (shareId @ ''.zip'')
                                  (map (\<lambda>filename. (filename, read_file root (join shareDir [filename])))
                                     files))
                       in (response, if shouldBurn then [(now + 1000, shareDir)] else [])))"

text \<open>
  The process between requests: the tree and the timers that are set. A timer that is
  due removes its directory with \<^verbatim>\<open>rm(shareDir, { recursive: true })\<close> and ignores a
  failure. A download request at time \<open>now\<close> is served after the timers due by then.
\<close>

record world =
  fs :: node
  timers :: "(int \<times> path) list"

fun fire_timers :: "int \<Rightarrow> (int \<times> path) list \<Rightarrow> node \<Rightarrow> (int \<times> path) list \<times> node" where
  "fire_timers now [] root = ([], root)"
| "fire_timers now ((due, dir) # ts) root =
     (if due \<le> now
      then fire_timers now ts (case rm now True dir root of Inl e \<Rightarrow> root | Inr root' \<Rightarrow> root')
      else (let (ts', root') = fire_timers now ts root in ((due, dir) # ts', root')))"

definition download_request ::
  "config \<Rightarrow> (string \<Rightarrow> string) \<Rightarrow> int \<Rightarrow> string \<Rightarrow> world \<Rightarrow> response \<times> world" where
  "download_request cfg mime now pathname w =
     (let (pending, root) = fire_timers now (timers w) (fs w);
          (response, set_now) = handleDownload cfg mime now pathname root
      in (response, \<lparr>fs = root, timers = pending @ set_now\<rparr>))"

section \<open>Expiry sweep (cleanupExpiredShares)\<close>

definition HOUR_MS :: int where
  "HOUR_MS = 60 * 60 * 1000"

text \<open>
  The inner loop over the shares of one bucket: a share whose \<^verbatim>\<open>stat\<close> or \<^verbatim>\<open>rm\<close> fails
  is skipped by the inner \<^verbatim>\<open>try\<close>.
\<close>

fun sweep_shares :: "int \<Rightarrow> int \<Rightarrow> path \<Rightarrow> string list \<Rightarrow> node \<Rightarrow> node" where
  "sweep_shares now ttlMs bucketPath [] root = root"
| "sweep_shares now ttlMs bucketPath (shareId # shares) root =
     (let sharePath = join bucketPath [shareId] in
      sweep_shares now ttlMs bucketPath shares
        (case stat_mtimeMs root sharePath of
           Inl e \<Rightarrow> root
         | Inr mtimeMs \<Rightarrow>
             if now - mtimeMs > ttlMs
             then (case rm now True sharePath root of Inl e \<Rightarrow> root | Inr root' \<Rightarrow> root')
             else root))"

text \<open>
  The outer loop over the buckets. Its calls of \<^verbatim>\<open>readdir\<close> and the \<^verbatim>\<open>rm(bucketPath)\<close>
  of an empty bucket stand directly in the outer \<^verbatim>\<open>try\<close>: an exception of one of them
  ends the sweep. The result is the exception that ended the sweep, if any, and the tree.
\<close>

fun sweep_buckets :: "int \<Rightarrow> int \<Rightarrow> path \<Rightarrow> string list \<Rightarrow> node \<Rightarrow> fs_error option \<times> node" where
  "sweep_buckets now ttlMs uploadsDir [] root = (None, root)"
| "sweep_buckets now ttlMs uploadsDir (bucket # buckets) root =
     (let bucketPath = join uploadsDir [bucket] in
      case readdir root bucketPath of
        Inl e \<Rightarrow> (Some e, root)
      | Inr shares \<Rightarrow>
          let root1 = sweep_shares now ttlMs bucketPath shares root in
          (case readdir root1 bucketPath of
             Inl e \<Rightarrow> (Some e, root1)
           | Inr remaining \<Rightarrow>
               if remaining = []
               then (case rm now False bucketPath root1 of
                       Inl e \<Rightarrow> (Some e, root1)
                     | Inr root2 \<Rightarrow> sweep_buckets now ttlMs uploadsDir buckets root2)
               else sweep_buckets now ttlMs uploadsDir buckets root1))"

definition cleanupExpiredShares :: "config \<Rightarrow> int \<Rightarrow> node \<Rightarrow> fs_error option \<times> node" where
  "cleanupExpiredShares cfg now root =
     (let ttlMs = share_ttl_days cfg * 24 * HOUR_MS;
          uploadsDir = join (data_dir cfg) [''uploads'']
      in case readdir root uploadsDir of
           Inl e \<Rightarrow> (Some e, root)
         | Inr buckets \<Rightarrow> sweep_buckets now ttlMs uploadsDir buckets root)"

section \<open>Example inputs\<close>

text \<open>
  A configuration with one password and a 10 MB quota, a hash function that sends every
  password to \<open>0xabc\<close> (bucket \<^verbatim>\<open>abc\<close>), a request that carries the password, and a tree
  with \<^verbatim>\<open>data/uploads\<close> holding the given buckets. The theorems below are evaluated on
  them.
\<close>

definition example_config :: config where
  "example_config =
     \<lparr>port = 3000, data_dir = [''data''], passwords = [''pw''],
      max_file_size_mb = 100, share_ttl_days = 7, max_bucket_size_mb = 10\<rparr>"

definition example_hash :: "string \<Rightarrow> 64 word" where
  "example_hash password = 0xabc"

definition example_request :: "form_value list \<Rightarrow> form_value option \<Rightarrow> request" where
  "example_request files burn =
     \<lparr>x_forwarded_for = None, x_real_ip = None, x_password = Some ''pw'',
      form_files = files, form_burn = burn\<rparr>"

definition uploads_tree :: "(string \<times> node) list \<Rightarrow> node" where
  "uploads_tree buckets = Dir 0 [(''data'', Dir 0 [(''uploads'', Dir 0 buckets)])]"

text \<open>A file of \<open>n\<close> bytes.\<close>

definition big_file :: "nat \<Rightarrow> string" where
  "big_file n = replicate n CHR ''x''"

section \<open>Notions used in the statements and proofs about uploads\<close>

text \<open>
  What an entry adds to the sum of \<open>dirSizeLoop\<close>; the size \<open>getDirSize\<close> computes at a
  path below a node that may be missing; and the requests none of whose file names has a
  \<^verbatim>\<open>..\<close> segment.
\<close>

fun entry_size :: "node \<Rightarrow> nat" where
  "entry_size (File c m) = length c"
| "entry_size (Dir m es) = getDirSize_node (Dir m es)"
| "entry_size Broken = 0"

definition size_at :: "node option \<Rightarrow> path \<Rightarrow> nat" where
  "size_at no D =
     (case no of
        None \<Rightarrow> 0
      | Some n \<Rightarrow> (case lookup n D of None \<Rightarrow> 0 | Some x \<Rightarrow> getDirSize_node x))"

definition safe_names :: "form_value list \<Rightarrow> bool" where
  "safe_names files =
     list_all (\<lambda>f. case f of FileV name d \<Rightarrow> ''..'' \<notin> set (split_slash name) | TextV t \<Rightarrow> True) files"

text \<open>A sequence of upload requests, each with its share id and its time.\<close>

fun run_uploads ::
  "config \<Rightarrow> (string \<Rightarrow> 64 word) \<Rightarrow> (string \<times> int \<times> request) list \<Rightarrow> node \<Rightarrow> node" where
  "run_uploads cfg h [] root = root"
| "run_uploads cfg h ((shareId, now, req) # reqs) root =
     run_uploads cfg h reqs (snd (handleUpload cfg h shareId now req root))"

section \<open>Notions used in the statements about downloads\<close>

text \<open>
  An ordinary entry name, as a directory listing gives it: one non-empty path segment
  other than \<^verbatim>\<open>.\<close> and \<^verbatim>\<open>..\<close>. A regular file. And the answers to a sequence of download
  requests for one path, at the given times.
\<close>

definition plain_name :: "string \<Rightarrow> bool" where
  "plain_name f = (f \<noteq> [] \<and> CHR ''/'' \<notin> set f \<and> f \<noteq> ''.'' \<and> f \<noteq> ''..'')"

definition is_file :: "node \<Rightarrow> bool" where
  "is_file n = (case n of File c m \<Rightarrow> True | _ \<Rightarrow> False)"

fun serve_downloads ::
  "config \<Rightarrow> (string \<Rightarrow> string) \<Rightarrow> string \<Rightarrow> int list \<Rightarrow> world \<Rightarrow> response list" where
  "serve_downloads cfg mime pathname [] w = []"
| "serve_downloads cfg mime pathname (t # ts) w =
     fst (download_request cfg mime t pathname w)
       # serve_downloads cfg mime pathname ts (snd (download_request cfg mime t pathname w))"

text \<open>
  The directory entries that the files of an upload become when each is written under its
  own name at time \<open>now\<close>.
\<close>

fun stored_files :: "int \<Rightarrow> form_value list \<Rightarrow> (string \<times> node) list" where
  "stored_files now [] = []"
| "stored_files now (FileV name d # files) = (name, File d now) # stored_files now files"
| "stored_files now (TextV t # files) = stored_files now files"

text \<open>A share directory last modified at time 0, holding one file.\<close>

definition expired_share :: node where
  "expired_share = Dir 0 [(''f.txt'', File ''old'' 0)]"

section \<open>Rate limiter: proofs\<close>

lemma isRateLimited_other:
  "ip' \<noteq> ip \<Longrightarrow> snd (isRateLimited now ip' m) ip = m ip"
  by (simp add: isRateLimited_def split: option.splits)

lemma isRateLimited_reset:
  assumes "m ip = None \<or> (\<exists>e. m ip = Some e \<and> now > resetAt e)"
  shows "isRateLimited now ip m =
           (False, m(ip \<mapsto> \<lparr>count = 1, resetAt = now + RATE_LIMIT_WINDOW\<rparr>))"
  using assms by (auto simp: isRateLimited_def)

lemma isRateLimited_within:
  assumes "m ip = Some e" and "now \<le> resetAt e"
  shows "isRateLimited now ip m =
           (count e + 1 > RATE_LIMIT_MAX, m(ip \<mapsto> e\<lparr>count := count e + 1\<rparr>))"
  using assms by (simp add: isRateLimited_def)

lemma run_within_window:
  assumes "m ip = Some e"
    and "\<forall>t \<in> set (requests_of ip reqs). t \<le> resetAt e"
  shows "answers_for ip (run_requests reqs m) = window_answers (count e) (length (requests_of ip reqs))"
  using assms
proof (induction reqs arbitrary: m e)
  case Nil
  then show ?case by (simp add: answers_for_def requests_of_def)
next
  case (Cons r reqs)
  obtain now c where r: "r = (now, c)" by (cases r)
  let ?k = "length (requests_of ip reqs)"
  show ?case
  proof (cases "c = ip")
    case True
    from Cons.prems r True have le: "now \<le> resetAt e"
      by (simp add: requests_of_def)
    let ?e' = "e\<lparr>count := count e + 1\<rparr>"
    let ?m' = "m(ip \<mapsto> ?e')"
    have step: "isRateLimited now ip m = (count e + 1 > RATE_LIMIT_MAX, ?m')"
      using Cons.prems(1) le by (simp add: isRateLimited_within)
    have rest: "\<forall>t \<in> set (requests_of ip reqs). t \<le> resetAt ?e'"
      using Cons.prems(2) r True by (simp add: requests_of_def)
    have ih: "answers_for ip (run_requests reqs ?m') = window_answers (Suc (count e)) ?k"
    proof -
      have m': "?m' ip = Some ?e'" by simp
      have c': "count ?e' = Suc (count e)" by simp
      show ?thesis using Cons.IH [of ?m' ?e', OF m' rest] unfolding c' .
    qed
    have len: "length (requests_of ip (r # reqs)) = Suc ?k"
      using r True by (simp add: requests_of_def)
    have "answers_for ip (run_requests (r # reqs) m) =
        (Suc (count e) > RATE_LIMIT_MAX) # answers_for ip (run_requests reqs ?m')"
      using r True step by (simp add: answers_for_def)
    then show ?thesis unfolding ih len by simp
  next
    case False
    have keep: "snd (isRateLimited now c m) ip = Some e"
      using isRateLimited_other [OF False] Cons.prems(1) by simp
    have same: "requests_of ip (r # reqs) = requests_of ip reqs"
      using r False by (simp add: requests_of_def)
    have "answers_for ip (run_requests (r # reqs) m) =
        answers_for ip (run_requests reqs (snd (isRateLimited now c m)))"
      using r False by (simp add: answers_for_def)
    also have "\<dots> = window_answers (count e) ?k"
      using Cons.IH [of "snd (isRateLimited now c m)" e, OF keep] Cons.prems(2) same by simp
    finally show ?thesis unfolding same .
  qed
qed

lemma table_within_window:
  assumes "m ip = Some e"
    and "\<forall>t \<in> set (requests_of ip reqs). t \<le> resetAt e"
  shows "table_after reqs m ip = Some (e\<lparr>count := count e + length (requests_of ip reqs)\<rparr>)"
  using assms
proof (induction reqs arbitrary: m e)
  case Nil
  then show ?case by (simp add: requests_of_def)
next
  case (Cons r reqs)
  obtain now c where r: "r = (now, c)" by (cases r)
  show ?case
  proof (cases "c = ip")
    case True
    from Cons.prems r True have le: "now \<le> resetAt e"
      by (simp add: requests_of_def)
    let ?e' = "e\<lparr>count := count e + 1\<rparr>"
    let ?m' = "m(ip \<mapsto> ?e')"
    have step: "snd (isRateLimited now ip m) = ?m'"
      using Cons.prems(1) le by (simp add: isRateLimited_within)
    have m': "?m' ip = Some ?e'" by simp
    have rest: "\<forall>t \<in> set (requests_of ip reqs). t \<le> resetAt ?e'"
      using Cons.prems(2) r True by (simp add: requests_of_def)
    have len: "length (requests_of ip (r # reqs)) = Suc (length (requests_of ip reqs))"
      using r True by (simp add: requests_of_def)
    have "table_after (r # reqs) m ip = table_after reqs ?m' ip"
      using r True step by simp
    also have "\<dots> = Some (?e'\<lparr>count := count ?e' + length (requests_of ip reqs)\<rparr>)"
      by (rule Cons.IH [of ?m' ?e', OF m' rest])
    finally show ?thesis unfolding len by simp
  next
    case False
    have keep: "snd (isRateLimited now c m) ip = Some e"
      using isRateLimited_other [OF False] Cons.prems(1) by simp
    have same: "requests_of ip (r # reqs) = requests_of ip reqs"
      using r False by (simp add: requests_of_def)
    have "table_after (r # reqs) m ip = table_after reqs (snd (isRateLimited now c m)) ip"
      using r by simp
    also have "\<dots> = Some (e\<lparr>count := count e + length (requests_of ip reqs)\<rparr>)"
      using Cons.IH [of "snd (isRateLimited now c m)" e, OF keep] Cons.prems(2) same by simp
    finally show ?thesis unfolding same .
  qed
qed

lemma run_requests_append:
  "run_requests (reqs @ [(now, ip)]) m =
     run_requests reqs m @ [(ip, fst (isRateLimited now ip (table_after reqs m)))]"
proof (induction reqs arbitrary: m)
  case Nil
  then show ?case by simp
next
  case (Cons r reqs)
  obtain t c where r: "r = (t, c)" by (cases r)
  show ?case unfolding r using Cons.IH [of "snd (isRateLimited t c m)"] by simp
qed

lemma length_window_answers: "length (window_answers c k) = k"
  by (induction k arbitrary: c) simp_all

lemma nth_window_answers:
  "i < k \<Longrightarrow> window_answers c k ! i = (c + i + 1 > RATE_LIMIT_MAX)"
proof (induction k arbitrary: c i)
  case 0
  then show ?case by simp
next
  case (Suc k)
  then show ?case by (cases i) simp_all
qed

text \<open>
  Claim C6. For every client, with window 60 s and limit 30: a request from a client that
  has no entry, or that arrives after the entry's reset time, is allowed and resets the
  entry to count 1 with a new window that ends 60000 ms later. Of the requests of that
  client that follow inside this window (other clients' requests interleaved at will),
  the n-th request of the window, counting the resetting one as the first, is rejected
  exactly when \<open>n > 30\<close>: requests 1 to 30 pass, request 31 and every later one is
  rejected (index \<open>i\<close> below is \<open>n - 1\<close>). These requests, counted or rejected, and the
  requests of other clients leave the end of the window where the resetting request put
  it: after the run the client's entry holds the number of its requests and the reset
  time \<open>t0 + 60000\<close>. So the first request of the client after the window has elapsed,
  at any time later than \<open>t0 + 60000\<close>, is allowed again and resets the entry.
\<close>

theorem rate_limit_window:
  assumes fresh: "m ip = None \<or> (\<exists>e. m ip = Some e \<and> t0 > resetAt e)"
    and inside: "\<forall>t \<in> set (requests_of ip reqs). t \<le> t0 + RATE_LIMIT_WINDOW"
  shows "isRateLimited t0 ip m =
           (False, m(ip \<mapsto> \<lparr>count = 1, resetAt = t0 + 60000\<rparr>))
       \<and> length (answers_for ip (run_requests ((t0, ip) # reqs) m)) =
           Suc (length (requests_of ip reqs))
       \<and> (\<forall>i \<le> length (requests_of ip reqs).
             answers_for ip (run_requests ((t0, ip) # reqs) m) ! i = (i + 1 > 30))
       \<and> table_after ((t0, ip) # reqs) m ip =
           Some \<lparr>count = Suc (length (requests_of ip reqs)), resetAt = t0 + 60000\<rparr>
       \<and> (\<forall>t > t0 + 60000.
             isRateLimited t ip (table_after ((t0, ip) # reqs) m) =
               (False, (table_after ((t0, ip) # reqs) m)(ip \<mapsto> \<lparr>count = 1, resetAt = t + 60000\<rparr>))
           \<and> answers_for ip (run_requests (((t0, ip) # reqs) @ [(t, ip)]) m)
                 ! Suc (length (requests_of ip reqs)) = False)"
proof -
  let ?e = "\<lparr>count = 1, resetAt = t0 + RATE_LIMIT_WINDOW\<rparr>"
  let ?m = "m(ip \<mapsto> ?e)"
  let ?k = "length (requests_of ip reqs)"
  let ?run = "(t0, ip) # reqs"
  have first: "isRateLimited t0 ip m = (False, ?m)"
    using fresh by (rule isRateLimited_reset)
  have me: "?m ip = Some ?e"
    by simp
  have win: "\<forall>t \<in> set (requests_of ip reqs). t \<le> resetAt ?e"
    using inside by simp
  have "answers_for ip (run_requests reqs ?m) = window_answers (count ?e) ?k"
    using me win by (rule run_within_window [of ?m ip ?e reqs])
  then have rest: "answers_for ip (run_requests reqs ?m) = window_answers (Suc 0) ?k"
    by simp
  have "answers_for ip (run_requests ?run m) = False # answers_for ip (run_requests reqs ?m)"
    using first by (simp add: answers_for_def)
  then have all: "answers_for ip (run_requests ?run m) = window_answers 0 (Suc ?k)"
    unfolding rest by (simp add: RATE_LIMIT_MAX_def)
  have nth: "\<forall>i \<le> ?k. window_answers 0 (Suc ?k) ! i = (i + 1 > 30)"
    using nth_window_answers [of _ "Suc ?k" 0] by (simp add: RATE_LIMIT_MAX_def)
  have "table_after reqs ?m ip = Some (?e\<lparr>count := count ?e + ?k\<rparr>)"
    using me win by (rule table_within_window [of ?m ip ?e reqs])
  then have table: "table_after ?run m ip = Some \<lparr>count = Suc ?k, resetAt = t0 + 60000\<rparr>"
    using first by (simp add: RATE_LIMIT_WINDOW_def)
  have late: "isRateLimited t ip (table_after ?run m) =
        (False, (table_after ?run m)(ip \<mapsto> \<lparr>count = 1, resetAt = t + 60000\<rparr>))
      \<and> answers_for ip (run_requests (?run @ [(t, ip)]) m) ! Suc ?k = False"
    if t: "t > t0 + 60000" for t
  proof
    have "table_after ?run m ip = None
        \<or> (\<exists>e. table_after ?run m ip = Some e \<and> t > resetAt e)"
      using table t by simp
    then have "isRateLimited t ip (table_after ?run m) =
        (False, (table_after ?run m)(ip \<mapsto> \<lparr>count = 1, resetAt = t + RATE_LIMIT_WINDOW\<rparr>))"
      by (rule isRateLimited_reset)
    then show allowed: "isRateLimited t ip (table_after ?run m) =
        (False, (table_after ?run m)(ip \<mapsto> \<lparr>count = 1, resetAt = t + 60000\<rparr>))"
      by (simp add: RATE_LIMIT_WINDOW_def)
    have "answers_for ip (run_requests (?run @ [(t, ip)]) m) =
        answers_for ip (run_requests ?run m) @ [False]"
      unfolding run_requests_append using allowed by (simp add: answers_for_def)
    then show "answers_for ip (run_requests (?run @ [(t, ip)]) m) ! Suc ?k = False"
      unfolding all by (simp add: nth_append length_window_answers)
  qed
  show ?thesis
    unfolding all using first nth table late
    by (simp add: RATE_LIMIT_WINDOW_def length_window_answers all)
qed

text \<open>
  One client sends 31 requests at time 0, another client one at time 5, and the first
  client one more at 60001: its request 30 is allowed, its request 31 is rejected, and
  its request after the window is allowed.
\<close>

theorem rate_limit_window_witness:
  "answers_for ''10.0.0.1''
     (run_requests ((0, ''10.0.0.1'') # (replicate 30 (0, ''10.0.0.1'') @ [(5, ''10.0.0.2'')])) Map.empty)
       ! 29 = False
   \<and> answers_for ''10.0.0.1''
     (run_requests ((0, ''10.0.0.1'') # (replicate 30 (0, ''10.0.0.1'') @ [(5, ''10.0.0.2'')])) Map.empty)
       ! 30 = True
   \<and> answers_for ''10.0.0.1''
     (run_requests (((0, ''10.0.0.1'') # (replicate 30 (0, ''10.0.0.1'') @ [(5, ''10.0.0.2'')]))
        @ [(60001, ''10.0.0.1'')]) Map.empty)
       ! 31 = False"
proof -
  let ?a = "''10.0.0.1''"
  let ?reqs = "replicate 30 (0::int, ?a) @ [(5, ''10.0.0.2'')]"
  have fresh: "Map.empty ?a = None
      \<or> (\<exists>e. (Map.empty :: rateLimitMap) ?a = Some e \<and> 0 > resetAt e)"
    by simp
  have reqs: "requests_of ?a ?reqs = replicate 30 0"
    by (simp add: requests_of_def)
  have inside: "\<forall>t \<in> set (requests_of ?a ?reqs). t \<le> 0 + RATE_LIMIT_WINDOW"
    unfolding reqs by (simp add: RATE_LIMIT_WINDOW_def)
  have len: "length (requests_of ?a ?reqs) = 30"
    unfolding reqs by simp
  note inst = rate_limit_window [OF fresh inside, unfolded len]
  have nth: "\<forall>i \<le> 30. answers_for ?a (run_requests ((0, ?a) # ?reqs) Map.empty) ! i = (i + 1 > 30)"
    using inst by blast
  have late: "\<forall>t > 0 + 60000.
      answers_for ?a (run_requests (((0, ?a) # ?reqs) @ [(t, ?a)]) Map.empty) ! Suc 30 = False"
    using inst by blast
  from nth [rule_format, of 29] nth [rule_format, of 30] late [rule_format, of 60001]
  show ?thesis by simp
qed

section \<open>Bucket resolver: proofs\<close>

lemma toString16_not_Nil: "toString16 n \<noteq> []"
  by (subst toString16.simps) simp

lemma toString16_length_pos: "Suc 0 \<le> length (toString16 n)"
  using toString16_not_Nil [of n] by (cases "toString16 n") simp_all

lemma toString16_length_lower: "16 ^ k \<le> n \<Longrightarrow> k < length (toString16 n)"
proof (induction k arbitrary: n)
  case 0
  then show ?case using toString16_not_Nil [of n] by simp
next
  case (Suc k)
  then have a: "16 * 16 ^ k \<le> n"
    by simp
  have "1 \<le> (16::nat) ^ k"
    by simp
  with a have big: "\<not> n < 16"
    by linarith
  have "16 ^ k \<le> n div 16"
    using div_le_mono [OF a, of 16] by simp
  from Suc.IH [OF this] big show ?case
    by (subst toString16.simps) simp
qed

lemma toString16_length_upper: "n < 16 ^ Suc k \<Longrightarrow> length (toString16 n) \<le> Suc k"
proof (induction k arbitrary: n)
  case 0
  then show ?case by (subst toString16.simps) simp
next
  case (Suc k)
  then have "n div 16 < 16 ^ Suc k"
    by (simp add: less_mult_imp_div_less mult.commute)
  from Suc.IH [OF this] show ?case
    by (subst toString16.simps) simp
qed

text \<open>
  Claim C9, as the code has it. The bucket id is a function of the hash value alone, so
  equal hash values (in particular the same password) give the same id. Its length is
  between 1 and 12, and it is 12 exactly when the hash value has twelve or more
  hexadecimal digits, that is when it is at least \<open>16 ^ 11\<close>; a smaller hash value gives
  a shorter id, because \<^verbatim>\<open>toString(16)\<close> writes no leading zeros.
\<close>

theorem hashPassword_length:
  "(h p = h q \<longrightarrow> hashPassword h p = hashPassword h q)
   \<and> 1 \<le> length (hashPassword h p) \<and> length (hashPassword h p) \<le> 12
   \<and> (length (hashPassword h p) = 12 \<longleftrightarrow> 16 ^ 11 \<le> unat (h p))"
proof -
  let ?n = "unat (h p)"
  have len: "length (hashPassword h p) = min 12 (length (toString16 ?n))"
    by (simp add: hashPassword_def slice_def min.commute)
  have pos: "Suc 0 \<le> length (toString16 ?n)"
    by (rule toString16_length_pos)
  have iff: "12 \<le> length (toString16 ?n) \<longleftrightarrow> 16 ^ 11 \<le> ?n"
  proof
    assume "12 \<le> length (toString16 ?n)"
    show "16 ^ 11 \<le> ?n"
    proof (rule ccontr)
      assume "\<not> 16 ^ 11 \<le> ?n"
      then have "?n < 16 ^ Suc 10" by simp
      from toString16_length_upper [OF this] \<open>12 \<le> length (toString16 ?n)\<close>
      show False by simp
    qed
  next
    assume "16 ^ 11 \<le> ?n"
    from toString16_length_lower [OF this] show "12 \<le> length (toString16 ?n)" by simp
  qed
  have "1 \<le> min 12 (length (toString16 ?n))"
    using pos by simp
  moreover have "min 12 (length (toString16 ?n)) \<le> 12"
    by simp
  moreover have "min 12 (length (toString16 ?n)) = 12 \<longleftrightarrow> 16 ^ 11 \<le> ?n"
    unfolding iff [symmetric] by linarith
  moreover have "h p = h q \<longrightarrow> hashPassword h p = hashPassword h q"
    by (simp add: hashPassword_def)
  ultimately show ?thesis
    unfolding len by blast
qed

theorem hashPassword_length_witness:
  "hashPassword (\<lambda>p. if p = ''hunter2'' then 255 else 2 ^ 63) ''hunter2'' = ''ff''"
proof -
  let ?h = "\<lambda>p. if p = ''hunter2'' then 255 else (2 ^ 63 :: 64 word)"
  have "?h ''hunter2'' = ?h ''hunter2''" by simp
  with hashPassword_length [of ?h "''hunter2''" "''hunter2''"]
  have "hashPassword ?h ''hunter2'' = hashPassword ?h ''hunter2''" by blast
  moreover have "toString16 255 = ''ff''"
    by (simp add: toString16.simps hex_digit_def)
  ultimately show ?thesis
    by (simp add: hashPassword_def slice_def)
qed

text \<open>
  The claim as the specification states it, a fixed length for every password, fails as
  soon as the hash of some password is below \<open>16 ^ 11\<close>: with a hash function that
  sends one password to \<open>0xff\<close> and another to \<open>2 ^ 63\<close> the two ids have lengths 2
  and 12.
\<close>

theorem hashPassword_fixed_length_counterexample:
  "length (hashPassword (\<lambda>p. if p = ''hunter2'' then 255 else 2 ^ 63) ''hunter2'')
     \<noteq> length (hashPassword (\<lambda>p. if p = ''hunter2'' then 255 else 2 ^ 63) ''letmein'')"
proof -
  have a: "toString16 255 = ''ff''"
    by (simp add: toString16.simps hex_digit_def)
  have "16 ^ 11 \<le> unat (2 ^ 63 :: 64 word)"
    by simp
  then have "11 < length (toString16 (unat (2 ^ 63 :: 64 word)))"
    by (rule toString16_length_lower)
  then show ?thesis
    using a by (simp add: hashPassword_def slice_def)
qed

lemma example_bucket: "hashPassword example_hash ''pw'' = ''abc''"
  by (simp add: hashPassword_def example_hash_def slice_def toString16.simps hex_digit_def)

lemma example_bucketDir:
  "join [''data''] [''uploads'', ''abc''] = [''data'', ''uploads'', ''abc'']"
  by (simp add: join_def)

section \<open>Quota tracker and quota query: proofs\<close>

lemma dirSizeLoop_accessible:
  "accessible n \<Longrightarrow> getDirSize_node n = (case n of Dir m es \<Rightarrow> total_bytes n | _ \<Rightarrow> 0)"
  "accessible_entries es \<Longrightarrow> dirSizeLoop es tot = tot + total_bytes_entries es"
  by (induction n and es tot rule: getDirSize_node_dirSizeLoop.induct) simp_all

lemma getDirSize_accessible:
  assumes "lookup root dirPath = Some (Dir m es)" and "accessible (Dir m es)"
  shows "getDirSize root dirPath = total_bytes (Dir m es)"
  using assms dirSizeLoop_accessible(1) [of "Dir m es"] by (simp add: getDirSize_def)

lemma handleQuota_allowed:
  assumes "\<not> fst (isRateLimited now (getClientIp req) rl)"
    and "x_password req = Some pw" and "pw \<noteq> []" and "pw \<in> set (passwords cfg)"
  shows "fst (handleQuota cfg h now req rl root) =
     QuotaJson (int (getDirSize root (join (data_dir cfg) [''uploads'', hashPassword h pw])))
       (max_bucket_size_mb cfg * 1024 * 1024)
       (max_bucket_size_mb cfg * 1024 * 1024
          - int (getDirSize root (join (data_dir cfg) [''uploads'', hashPassword h pw])))"
  using assms
  by (cases "isRateLimited now (getClientIp req) rl") (simp add: handleQuota_def Let_def)

text \<open>
  Claim C10, as the code has it. A quota query that the rate limiter lets pass and that
  carries an allow-listed password answers \<open>{used, max, available}\<close> where \<open>used\<close> is
  what \<open>getDirSize\<close> computes for the bucket's directory, \<open>max\<close> is the configured number
  of megabytes times \<open>1024 * 1024\<close>, and \<open>used + available = max\<close> exactly, so that
  \<open>available\<close> is negative whenever \<open>used\<close> exceeds \<open>max\<close>. When the bucket's directory
  exists and every entry below it can be accessed, \<open>used\<close> is the recursive byte sum of
  the directory (zero-byte marker files included).
\<close>

theorem handleQuota_result:
  assumes "\<not> fst (isRateLimited now (getClientIp req) rl)"
    and "x_password req = Some pw" and "pw \<noteq> []" and "pw \<in> set (passwords cfg)"
  shows "\<exists>used max available.
      fst (handleQuota cfg h now req rl root) = QuotaJson used max available
    \<and> used = int (getDirSize root (join (data_dir cfg) [''uploads'', hashPassword h pw]))
    \<and> max = max_bucket_size_mb cfg * 1024 * 1024
    \<and> used + available = max
    \<and> (max < used \<longrightarrow> available < 0)
    \<and> (\<forall>m es. lookup root (join (data_dir cfg) [''uploads'', hashPassword h pw]) = Some (Dir m es)
           \<and> accessible (Dir m es) \<longrightarrow> used = int (total_bytes (Dir m es)))"
  using handleQuota_allowed [OF assms] getDirSize_accessible by auto

theorem handleQuota_result_witness:
  "fst (handleQuota example_config example_hash 0 (example_request [] None) Map.empty
         (uploads_tree [(''abc'', Dir 0 [(''s1'', Dir 0 [(''f'', File ''hello'' 0), (''.burn'', File [] 0)])])]))
   = QuotaJson 5 10485760 10485755"
  using handleQuota_result [of 0 "example_request [] None" Map.empty "''pw''" example_config
      example_hash "uploads_tree [(''abc'', Dir 0 [(''s1'', Dir 0 [(''f'', File ''hello'' 0), (''.burn'', File [] 0)])])]"]
  by (auto simp: example_bucket example_bucketDir getDirSize_def uploads_tree_def
        isRateLimited_def getClientIp_def example_request_def example_config_def Let_def)

text \<open>
  The claim as stated, for every storage state and every allow-listed password, fails in
  two ways: the 31st query of a client inside one window is answered
  \<open>TooManyRequests\<close>, with no quota at all; and an entry that cannot be accessed ends the
  loop of \<open>getDirSize\<close>, so the files listed after it are not counted (\<open>used = 0\<close> for a
  bucket that holds 5 bytes).
\<close>

theorem handleQuota_counterexample:
  "fst (handleQuota example_config example_hash 50 (example_request [] None)
         [''unknown'' \<mapsto> \<lparr>count = 30, resetAt = 100\<rparr>] (uploads_tree []))
     = TooManyRequests
   \<and> fst (handleQuota example_config example_hash 50 (example_request [] None) Map.empty
         (uploads_tree [(''abc'', Dir 0 [(''x'', Broken), (''s1'', Dir 0 [(''f'', File ''hello'' 0)])])]))
     = QuotaJson 0 10485760 10485760
   \<and> total_bytes (Dir 0 [(''x'', Broken), (''s1'', Dir 0 [(''f'', File ''hello'' 0)])]) = 5"
  by (simp add: handleQuota_def example_bucket example_bucketDir getDirSize_def uploads_tree_def
        isRateLimited_def getClientIp_def example_request_def example_config_def RATE_LIMIT_MAX_def
        RATE_LIMIT_WINDOW_def Let_def)

section \<open>Upload: the quota check\<close>

lemma handleUpload_over_quota:
  assumes "x_password req = Some pw" and "pw \<noteq> []" and "pw \<in> set (passwords cfg)"
    and "form_files req \<noteq> []"
    and "int (getDirSize root (join (data_dir cfg) [''uploads'', hashPassword h pw]))
           + int (uploadSize (form_files req)) > max_bucket_size_mb cfg * 1024 * 1024"
  shows "handleUpload cfg h shareId now req root =
     (QuotaExceeded
        ((max_bucket_size_mb cfg * 1024 * 1024
            - int (getDirSize root (join (data_dir cfg) [''uploads'', hashPassword h pw])))
         div (1024 * 1024)),
      root)"
  using assms by (simp add: handleUpload_def Let_def)

lemma handleUpload_QuotaExceeded_iff:
  "fst (handleUpload cfg h shareId now req root) = QuotaExceeded k \<Longrightarrow>
     handleUpload cfg h shareId now req root = (QuotaExceeded k, root)"
  by (auto simp: handleUpload_def Let_def split: option.splits if_splits sum.splits prod.splits)

lemma length_big_file: "length (big_file n) = n"
  unfolding big_file_def by (rule length_replicate)

text \<open>
  Claim C8, as the code has it. For an upload with an allow-listed password and at least
  one form entry: when the bucket's size plus the upload's size exceeds the maximum the
  upload is answered \<open>QuotaExceeded\<close> and the tree is the one before the request (no byte
  is written); and every \<open>QuotaExceeded\<close> answer leaves the tree unchanged and carries
  \<open>floor ((max - used) / (1024 * 1024))\<close>, the number of whole megabytes that still fit
  (not the number of bytes). With a quota of 10 MB and 9 MB in use, an upload of 2 MB
  is rejected and the answer carries 1.
\<close>

theorem handleUpload_quota_rejection:
  assumes "x_password req = Some pw" and "pw \<noteq> []" and "pw \<in> set (passwords cfg)"
    and "form_files req \<noteq> []"
  shows "(int (getDirSize root (join (data_dir cfg) [''uploads'', hashPassword h pw]))
            + int (uploadSize (form_files req)) > max_bucket_size_mb cfg * 1024 * 1024
          \<longrightarrow> handleUpload cfg h shareId now req root =
               (QuotaExceeded
                  ((max_bucket_size_mb cfg * 1024 * 1024
                      - int (getDirSize root (join (data_dir cfg) [''uploads'', hashPassword h pw])))
                   div (1024 * 1024)),
                root))
    \<and> (\<forall>k. fst (handleUpload cfg h shareId now req root) = QuotaExceeded k
          \<longrightarrow> snd (handleUpload cfg h shareId now req root) = root
            \<and> k = (max_bucket_size_mb cfg * 1024 * 1024
                     - int (getDirSize root (join (data_dir cfg) [''uploads'', hashPassword h pw])))
                   div (1024 * 1024))
    \<and> (max_bucket_size_mb cfg = 10
          \<and> getDirSize root (join (data_dir cfg) [''uploads'', hashPassword h pw]) = 9 * 1024 * 1024
          \<and> uploadSize (form_files req) = 2 * 1024 * 1024
          \<longrightarrow> handleUpload cfg h shareId now req root = (QuotaExceeded 1, root))"
proof (intro conjI allI impI)
  assume "int (getDirSize root (join (data_dir cfg) [''uploads'', hashPassword h pw]))
            + int (uploadSize (form_files req)) > max_bucket_size_mb cfg * 1024 * 1024"
  with assms show "handleUpload cfg h shareId now req root =
       (QuotaExceeded
          ((max_bucket_size_mb cfg * 1024 * 1024
              - int (getDirSize root (join (data_dir cfg) [''uploads'', hashPassword h pw])))
           div (1024 * 1024)),
        root)"
    by (rule handleUpload_over_quota)
next
  fix k
  assume k: "fst (handleUpload cfg h shareId now req root) = QuotaExceeded k"
  then show "snd (handleUpload cfg h shareId now req root) = root"
    by (simp add: handleUpload_QuotaExceeded_iff)
  from k assms show "k = (max_bucket_size_mb cfg * 1024 * 1024
         - int (getDirSize root (join (data_dir cfg) [''uploads'', hashPassword h pw])))
       div (1024 * 1024)"
    by (auto simp: handleUpload_def Let_def split: if_splits sum.splits prod.splits option.splits)
next
  assume ex: "max_bucket_size_mb cfg = 10
      \<and> getDirSize root (join (data_dir cfg) [''uploads'', hashPassword h pw]) = 9 * 1024 * 1024
      \<and> uploadSize (form_files req) = 2 * 1024 * 1024"
  then have "int (getDirSize root (join (data_dir cfg) [''uploads'', hashPassword h pw]))
            + int (uploadSize (form_files req)) > max_bucket_size_mb cfg * 1024 * 1024"
    by simp
  with assms have "handleUpload cfg h shareId now req root =
       (QuotaExceeded
          ((max_bucket_size_mb cfg * 1024 * 1024
              - int (getDirSize root (join (data_dir cfg) [''uploads'', hashPassword h pw])))
           div (1024 * 1024)),
        root)"
    by (rule handleUpload_over_quota)
  with ex show "handleUpload cfg h shareId now req root = (QuotaExceeded 1, root)"
    by simp
qed

theorem handleUpload_quota_rejection_witness:
  "handleUpload example_config example_hash ''sid'' 0
         (example_request [FileV ''g'' (big_file (2 * 1024 * 1024))] None)
         (uploads_tree [(''abc'', Dir 0 [(''s0'', Dir 0 [(''f'', File (big_file (9 * 1024 * 1024)) 0)])])])
     = (QuotaExceeded 1,
        uploads_tree [(''abc'', Dir 0 [(''s0'', Dir 0 [(''f'', File (big_file (9 * 1024 * 1024)) 0)])])])"
proof -
  let ?req = "example_request [FileV ''g'' (big_file (2 * 1024 * 1024))] None"
  let ?root = "uploads_tree [(''abc'', Dir 0 [(''s0'', Dir 0 [(''f'', File (big_file (9 * 1024 * 1024)) 0)])])]"
  have a: "x_password ?req = Some ''pw''" "''pw'' \<noteq> []" "''pw'' \<in> set (passwords example_config)"
    "form_files ?req \<noteq> []"
    by (simp_all add: example_request_def example_config_def)
  have b: "max_bucket_size_mb example_config = 10
      \<and> getDirSize ?root (join (data_dir example_config) [''uploads'', hashPassword example_hash ''pw''])
          = 9 * 1024 * 1024
      \<and> uploadSize (form_files ?req) = 2 * 1024 * 1024"
    by (simp add: example_bucket example_bucketDir getDirSize_def uploads_tree_def
        example_request_def example_config_def length_big_file)
  from handleUpload_quota_rejection [OF a, of ?root example_hash "''sid''" 0] b
  show ?thesis by blast
qed

text \<open>
  The number in the answer is not the number of bytes that still fit: with 10 MB allowed
  and 9.5 MB in use an upload of 1 MB is rejected with the number 0, while 524288
  more bytes fit.
\<close>

theorem handleUpload_quota_bytes_counterexample:
  "fst (handleUpload example_config example_hash ''sid'' 0
         (example_request [FileV ''g'' (big_file 1048576)] None)
         (uploads_tree [(''abc'', Dir 0 [(''s0'', Dir 0 [(''f'', File (big_file 9961472) 0)])])]))
     = QuotaExceeded 0
   \<and> max_bucket_size_mb example_config * 1024 * 1024
       - int (getDirSize
           (uploads_tree [(''abc'', Dir 0 [(''s0'', Dir 0 [(''f'', File (big_file 9961472) 0)])])])
           [''data'', ''uploads'', ''abc'']) = 524288"
  by (simp add: handleUpload_def example_bucket example_bucketDir getDirSize_def uploads_tree_def
        example_request_def example_config_def Let_def length_big_file)

section \<open>Paths: proofs\<close>

lemma normalize_onto_no_dotdot:
  "''..'' \<notin> set ss \<Longrightarrow>
     normalize_onto stack ss = rev stack @ filter (\<lambda>s. s \<noteq> [] \<and> s \<noteq> ''.'') ss"
  by (induction ss arbitrary: stack) auto

lemma join_no_dotdot:
  assumes "''..'' \<notin> set (split_slash name)"
  shows "join dir [name] = dir @ filter (\<lambda>s. s \<noteq> [] \<and> s \<noteq> ''.'') (split_slash name)"
  using assms by (simp add: join_def normalize_onto_no_dotdot)

lemma join_inside:
  "''..'' \<notin> set (split_slash name) \<Longrightarrow> prefix dir (join dir [name])"
  by (simp add: join_no_dotdot)

lemma join_burn: "join dir [''.burn''] = dir @ [''.burn'']"
  by (simp add: join_def)

lemma incomparable_below:
  assumes "prefix d p" and "\<not> prefix d q" and "\<not> prefix q d"
  shows "\<not> prefix p q \<and> \<not> prefix q p"
proof
  show "\<not> prefix p q"
    using assms(1,2) prefix_order.trans by blast
  show "\<not> prefix q p"
  proof
    assume "prefix q p"
    with assms(1) have "prefix d q \<or> prefix q d"
      using prefix_same_cases by blast
    with assms(2,3) show False by blast
  qed
qed

section \<open>Storage tree: proofs\<close>

lemma map_of_upd_entry:
  "map_of (upd_entry s n es) t = (if t = s then Some n else map_of es t)"
  by (induction es) auto

lemma put_file_frame:
  assumes "put_file now d p no = Inr n'" and "\<not> prefix p q" and "\<not> prefix q p"
  shows "lookup n' q = (case no of None \<Rightarrow> None | Some n \<Rightarrow> lookup n q)"
  using assms
proof (induction p arbitrary: no n' q)
  case Nil
  then show ?case by simp
next
  case (Cons s p)
  from Cons.prems(3) obtain t q' where q: "q = t # q'"
    by (cases q) auto
  show ?case
  proof (cases no)
    case None
    with Cons.prems(1) obtain n'' where n'': "put_file now d p None = Inr n''"
      and n': "n' = Dir now [(s, n'')]"
      by (auto split: sum.splits)
    show ?thesis
    proof (cases "t = s")
      case True
      with Cons.prems(2,3) q have "\<not> prefix p q'" "\<not> prefix q' p" by auto
      from Cons.IH [OF n'' this] show ?thesis
        using None n' q True by simp
    next
      case False
      then show ?thesis using None n' q by simp
    qed
  next
    case (Some n)
    show ?thesis
    proof (cases n)
      case (Dir m es)
      with Some Cons.prems(1) obtain n'' where n'': "put_file now d p (map_of es s) = Inr n''"
        and n': "n' = Dir (if map_of es s = None then now else m) (upd_entry s n'' es)"
        by (auto split: sum.splits)
      show ?thesis
      proof (cases "t = s")
        case True
        with Cons.prems(2,3) q have "\<not> prefix p q'" "\<not> prefix q' p" by auto
        from Cons.IH [OF n'' this] show ?thesis
          using Some Dir n' q True by (simp add: map_of_upd_entry split: option.splits)
      next
        case False
        then show ?thesis using Some Dir n' q by (simp add: map_of_upd_entry)
      qed
    qed (use Some Cons.prems(1) in simp_all)
  qed
qed

lemma mkdir_p_frame:
  assumes "mkdir_p now p no = Inr n'" and "\<not> prefix p q" and "\<not> prefix q p"
  shows "lookup n' q = (case no of None \<Rightarrow> None | Some n \<Rightarrow> lookup n q)"
  using assms
proof (induction p arbitrary: no n' q)
  case Nil
  then show ?case by simp
next
  case (Cons s p)
  from Cons.prems(3) obtain t q' where q: "q = t # q'"
    by (cases q) auto
  show ?case
  proof (cases no)
    case None
    with Cons.prems(1) obtain n'' where n'': "mkdir_p now p None = Inr n''"
      and n': "n' = Dir now [(s, n'')]"
      by (auto split: sum.splits)
    show ?thesis
    proof (cases "t = s")
      case True
      with Cons.prems(2,3) q have "\<not> prefix p q'" "\<not> prefix q' p" by auto
      from Cons.IH [OF n'' this] show ?thesis
        using None n' q True by simp
    next
      case False
      then show ?thesis using None n' q by simp
    qed
  next
    case (Some n)
    show ?thesis
    proof (cases n)
      case (Dir m es)
      with Some Cons.prems(1) obtain n'' where n'': "mkdir_p now p (map_of es s) = Inr n''"
        and n': "n' = Dir (if map_of es s = None then now else m) (upd_entry s n'' es)"
        by (auto split: sum.splits)
      show ?thesis
      proof (cases "t = s")
        case True
        with Cons.prems(2,3) q have "\<not> prefix p q'" "\<not> prefix q' p" by auto
        from Cons.IH [OF n'' this] show ?thesis
          using Some Dir n' q True by (simp add: map_of_upd_entry split: option.splits)
      next
        case False
        then show ?thesis using Some Dir n' q by (simp add: map_of_upd_entry)
      qed
    qed (use Some Cons.prems(1) in simp_all)
  qed
qed

lemma dirSizeLoop_Cons:
  "dirSizeLoop ((s, n) # es) tot =
     (if n = Broken then tot else dirSizeLoop es (tot + entry_size n))"
  by (cases n) simp_all

lemma dirSizeLoop_acc: "dirSizeLoop es tot = tot + dirSizeLoop es 0"
proof (induction es arbitrary: tot)
  case Nil
  then show ?case by simp
next
  case (Cons e es)
  obtain s n where e: "e = (s, n)" by (cases e)
  show ?case
    unfolding e dirSizeLoop_Cons
    using Cons.IH [of "tot + entry_size n"] Cons.IH [of "0 + entry_size n"] by simp
qed

lemma dirSizeLoop_upd:
  assumes "n' \<noteq> Broken" and "map_of es s \<noteq> Some Broken"
    and "entry_size n' \<le> (case map_of es s of None \<Rightarrow> 0 | Some n \<Rightarrow> entry_size n) + k"
  shows "dirSizeLoop (upd_entry s n' es) tot \<le> dirSizeLoop es tot + k"
  using assms
proof (induction es arbitrary: tot)
  case Nil
  then show ?case by (simp add: dirSizeLoop_Cons)
next
  case (Cons e es)
  obtain a x where e: "e = (a, x)" by (cases e)
  show ?case
  proof (cases "a = s")
    case True
    with Cons.prems e have x: "x \<noteq> Broken" and le: "entry_size n' \<le> entry_size x + k"
      by auto
    have "dirSizeLoop (upd_entry s n' (e # es)) tot = dirSizeLoop es (tot + entry_size n')"
      using e True Cons.prems(1) by (simp add: dirSizeLoop_Cons)
    also have "\<dots> = tot + entry_size n' + dirSizeLoop es 0"
      by (rule dirSizeLoop_acc)
    also have "\<dots> \<le> tot + entry_size x + dirSizeLoop es 0 + k"
      using le by simp
    also have "tot + entry_size x + dirSizeLoop es 0 = dirSizeLoop es (tot + entry_size x)"
      by (rule dirSizeLoop_acc [symmetric])
    also have "\<dots> = dirSizeLoop (e # es) tot"
      using e x by (simp add: dirSizeLoop_Cons)
    finally show ?thesis .
  next
    case False
    show ?thesis
    proof (cases "x = Broken")
      case True
      then show ?thesis using e False by (simp add: dirSizeLoop_Cons)
    next
      case nb: False
      from Cons.prems e False have "map_of es s \<noteq> Some Broken"
        and "entry_size n' \<le> (case map_of es s of None \<Rightarrow> 0 | Some n \<Rightarrow> entry_size n) + k"
        by auto
      from Cons.IH [OF Cons.prems(1) this] show ?thesis
        using e False nb by (simp add: dirSizeLoop_Cons)
    qed
  qed
qed

lemma put_file_entry_size:
  assumes "put_file now d p no = Inr n'"
  shows "n' \<noteq> Broken \<and> no \<noteq> Some Broken
       \<and> entry_size n' \<le> (case no of None \<Rightarrow> 0 | Some n \<Rightarrow> entry_size n) + length d"
  using assms
proof (induction p arbitrary: no n')
  case Nil
  then show ?case
    by (cases no; cases "the no") auto
next
  case (Cons s p)
  show ?case
  proof (cases no)
    case None
    with Cons.prems obtain n'' where n'': "put_file now d p None = Inr n''"
      and n': "n' = Dir now [(s, n'')]"
      by (auto split: sum.splits)
    from Cons.IH [OF n''] show ?thesis
      using None n' by (simp add: dirSizeLoop_Cons)
  next
    case (Some n)
    show ?thesis
    proof (cases n)
      case (Dir m es)
      with Some Cons.prems obtain n'' where n'': "put_file now d p (map_of es s) = Inr n''"
        and n': "n' = Dir (if map_of es s = None then now else m) (upd_entry s n'' es)"
        by (auto split: sum.splits)
      from Cons.IH [OF n''] have "dirSizeLoop (upd_entry s n'' es) 0 \<le> dirSizeLoop es 0 + length d"
        by (intro dirSizeLoop_upd) auto
      then show ?thesis using Some Dir n' by simp
    qed (use Some Cons.prems in simp_all)
  qed
qed

lemma mkdir_p_entry_size:
  assumes "mkdir_p now p no = Inr n'"
  shows "n' \<noteq> Broken \<and> no \<noteq> Some Broken
       \<and> entry_size n' \<le> (case no of None \<Rightarrow> 0 | Some n \<Rightarrow> entry_size n) + 0"
  using assms
proof (induction p arbitrary: no n')
  case Nil
  then show ?case
    by (cases no; cases "the no") auto
next
  case (Cons s p)
  show ?case
  proof (cases no)
    case None
    with Cons.prems obtain n'' where n'': "mkdir_p now p None = Inr n''"
      and n': "n' = Dir now [(s, n'')]"
      by (auto split: sum.splits)
    from Cons.IH [OF n''] show ?thesis
      using None n' by (simp add: dirSizeLoop_Cons)
  next
    case (Some n)
    show ?thesis
    proof (cases n)
      case (Dir m es)
      with Some Cons.prems obtain n'' where n'': "mkdir_p now p (map_of es s) = Inr n''"
        and n': "n' = Dir (if map_of es s = None then now else m) (upd_entry s n'' es)"
        by (auto split: sum.splits)
      from Cons.IH [OF n''] have "dirSizeLoop (upd_entry s n'' es) 0 \<le> dirSizeLoop es 0 + 0"
        by (intro dirSizeLoop_upd) auto
      then show ?thesis using Some Dir n' by simp
    qed (use Some Cons.prems in simp_all)
  qed
qed

lemma size_at_simps:
  "size_at None D = 0"
  "size_at (Some n) [] = getDirSize_node n"
  "size_at (Some (Dir m es)) (t # D) = size_at (map_of es t) D"
  "size_at (Some (File c m)) D = 0"
  "size_at (Some Broken) D = 0"
  by (cases D; simp add: size_at_def split: option.splits)+

lemma getDirSize_size_at: "getDirSize root D = size_at (Some root) D"
  by (simp add: getDirSize_def size_at_def)

lemma put_file_size_at:
  assumes "put_file now d p no = Inr n'"
  shows "size_at (Some n') D \<le> size_at no D + length d"
  using assms
proof (induction p arbitrary: no n' D)
  case Nil
  then have "\<exists>c m. n' = File c m"
    by (cases no; cases "the no") auto
  then show ?case by (auto simp: size_at_simps)
next
  case (Cons s p)
  note bound = put_file_entry_size [OF Cons.prems]
  show ?case
  proof (cases no)
    case None
    with Cons.prems obtain n'' where n'': "put_file now d p None = Inr n''"
      and n': "n' = Dir now [(s, n'')]"
      by (auto split: sum.splits)
    show ?thesis
    proof (cases D)
      case Nil
      then show ?thesis using bound None n' by (simp add: size_at_simps)
    next
      case (Cons t D')
      then show ?thesis
        using Cons.IH [OF n'', of D'] None n' by (simp add: size_at_simps)
    qed
  next
    case (Some n)
    show ?thesis
    proof (cases n)
      case (Dir m es)
      with Some Cons.prems obtain n'' where n'': "put_file now d p (map_of es s) = Inr n''"
        and n': "n' = Dir (if map_of es s = None then now else m) (upd_entry s n'' es)"
        by (auto split: sum.splits)
      show ?thesis
      proof (cases D)
        case Nil
        then show ?thesis using bound Some Dir n' by (simp add: size_at_simps)
      next
        case (Cons t D')
        then show ?thesis
          using Cons.IH [OF n'', of D'] Some Dir n'
          by (simp add: size_at_simps map_of_upd_entry)
      qed
    qed (use Some Cons.prems in simp_all)
  qed
qed

lemma size_at_empty_dir: "size_at (Some (Dir m [])) D = 0"
  by (cases D) (simp_all add: size_at_simps)

lemma mkdir_p_size_at:
  assumes "mkdir_p now p no = Inr n'"
  shows "size_at (Some n') D \<le> size_at no D"
  using assms
proof (induction p arbitrary: no n' D)
  case Nil
  then show ?case
    by (cases no; cases "the no") (auto simp: size_at_simps size_at_empty_dir)
next
  case (Cons s p)
  note bound = mkdir_p_entry_size [OF Cons.prems]
  show ?case
  proof (cases no)
    case None
    with Cons.prems obtain n'' where n'': "mkdir_p now p None = Inr n''"
      and n': "n' = Dir now [(s, n'')]"
      by (auto split: sum.splits)
    show ?thesis
    proof (cases D)
      case Nil
      then show ?thesis using bound None n' by (simp add: size_at_simps)
    next
      case (Cons t D')
      then show ?thesis
        using Cons.IH [OF n'', of D'] None n' by (simp add: size_at_simps)
    qed
  next
    case (Some n)
    show ?thesis
    proof (cases n)
      case (Dir m es)
      with Some Cons.prems obtain n'' where n'': "mkdir_p now p (map_of es s) = Inr n''"
        and n': "n' = Dir (if map_of es s = None then now else m) (upd_entry s n'' es)"
        by (auto split: sum.splits)
      show ?thesis
      proof (cases D)
        case Nil
        then show ?thesis using bound Some Dir n' by (simp add: size_at_simps)
      next
        case (Cons t D')
        then show ?thesis
          using Cons.IH [OF n'', of D'] Some Dir n'
          by (simp add: size_at_simps map_of_upd_entry)
      qed
    qed (use Some Cons.prems in simp_all)
  qed
qed

section \<open>Upload: proofs\<close>

lemma Bun_write_Inr:
  "Bun_write now d p slash root = Inr root' \<Longrightarrow> put_file now d p (Some root) = Inr root'"
  by (simp add: Bun_write_def split: if_splits)

lemma write_files_size_at:
  "write_files now shareDir files root = (e, root') \<Longrightarrow>
     size_at (Some root') D \<le> size_at (Some root) D + uploadSize files"
proof (induction now shareDir files root rule: write_files.induct)
  case (1 now shareDir root)
  then show ?case by simp
next
  case (2 now shareDir name d files root)
  show ?case
  proof (cases "Bun_write now d (join shareDir [name]) (join_slash [name]) root")
    case (Inl err)
    with "2.prems" show ?thesis by simp
  next
    case (Inr root1)
    with "2.prems" have "write_files now shareDir files root1 = (e, root')" by simp
    from "2.IH" [OF Inr this] put_file_size_at [OF Bun_write_Inr [OF Inr], of D]
    show ?thesis by simp
  qed
next
  case (3 now shareDir t files root)
  then show ?case by simp
qed

lemma write_files_frame:
  assumes "write_files now shareDir files root = (e, root')"
    and "safe_names files" and "\<not> prefix shareDir q" and "\<not> prefix q shareDir"
  shows "lookup root' q = lookup root q"
  using assms
proof (induction now shareDir files root rule: write_files.induct)
  case (1 now shareDir root)
  then show ?case by simp
next
  case (2 now shareDir name d files root)
  from "2.prems"(2) have safe: "''..'' \<notin> set (split_slash name)" and rest: "safe_names files"
    by (simp_all add: safe_names_def)
  show ?case
  proof (cases "Bun_write now d (join shareDir [name]) (join_slash [name]) root")
    case (Inl err)
    with "2.prems" show ?thesis by simp
  next
    case (Inr root1)
    with "2.prems" have w: "write_files now shareDir files root1 = (e, root')" by simp
    have "\<not> prefix (join shareDir [name]) q \<and> \<not> prefix q (join shareDir [name])"
      using join_inside [OF safe] "2.prems"(3,4) by (rule incomparable_below)
    with put_file_frame [OF Bun_write_Inr [OF Inr], of q] have "lookup root1 q = lookup root q"
      by simp
    with "2.IH" [OF Inr w rest "2.prems"(3,4)] show ?thesis by simp
  qed
next
  case (3 now shareDir t files root)
  then show ?case by (simp add: safe_names_def)
qed

lemma handleUpload_size_at:
  "size_at (Some (snd (handleUpload cfg h shareId now req root))) D
     \<le> size_at (Some root) D + uploadSize (form_files req)"
proof -
  let ?files = "form_files req"
  have step: "size_at (Some r3) D \<le> size_at (Some root) D + uploadSize ?files"
    if mk: "mkdir_p now sd (Some root) = Inr r1"
      and wr: "write_files now sd ?files r1 = (e, r2)"
      and burn: "r3 = r2 \<or> Bun_write now [] bp sl r2 = Inr r3"
    for sd r1 e r2 r3 bp sl
  proof -
    have "size_at (Some r3) D \<le> size_at (Some r2) D"
      using burn put_file_size_at [of now "[]" bp "Some r2" r3 D] Bun_write_Inr by fastforce
    also have "\<dots> \<le> size_at (Some r1) D + uploadSize ?files"
      using wr by (rule write_files_size_at)
    also have "size_at (Some r1) D \<le> size_at (Some root) D"
      using mk by (rule mkdir_p_size_at)
    finally show ?thesis by simp
  qed
  show ?thesis
    by (auto simp: handleUpload_def Let_def split: option.splits sum.splits prod.splits
        intro: step)
qed

lemma handleUpload_ShareUrl_fits:
  assumes "x_password req = Some pw"
    and "fst (handleUpload cfg h shareId now req root) = ShareUrl u"
  shows "int (getDirSize root (join (data_dir cfg) [''uploads'', hashPassword h pw]))
           + int (uploadSize (form_files req)) \<le> max_bucket_size_mb cfg * 1024 * 1024"
  using assms
  by (auto simp: handleUpload_def Let_def split: option.splits sum.splits prod.splits if_splits)

lemma handleUpload_bucket_bound:
  assumes "x_password req = Some pw"
    and "fst (handleUpload cfg h shareId now req root) = ShareUrl u"
  shows "int (getDirSize (snd (handleUpload cfg h shareId now req root))
                (join (data_dir cfg) [''uploads'', hashPassword h pw]))
           \<le> max_bucket_size_mb cfg * 1024 * 1024"
proof -
  let ?D = "join (data_dir cfg) [''uploads'', hashPassword h pw]"
  have "getDirSize (snd (handleUpload cfg h shareId now req root)) ?D
      \<le> getDirSize root ?D + uploadSize (form_files req)"
    unfolding getDirSize_size_at by (rule handleUpload_size_at)
  then have "int (getDirSize (snd (handleUpload cfg h shareId now req root)) ?D)
      \<le> int (getDirSize root ?D) + int (uploadSize (form_files req))"
    by linarith
  with handleUpload_ShareUrl_fits [OF assms] show ?thesis by linarith
qed

lemma handleUpload_frame:
  assumes pw: "x_password req = Some pw"
    and safe: "safe_names (form_files req)"
    and q: "\<not> prefix (join (join (data_dir cfg) [''uploads'', hashPassword h pw]) [shareId]) q"
      "\<not> prefix q (join (join (data_dir cfg) [''uploads'', hashPassword h pw]) [shareId])"
  shows "lookup (snd (handleUpload cfg h shareId now req root)) q = lookup root q"
proof -
  let ?sd = "join (join (data_dir cfg) [''uploads'', hashPassword h pw]) [shareId]"
  let ?files = "form_files req"
  have step: "lookup r3 q = lookup root q"
    if mk: "mkdir_p now ?sd (Some root) = Inr r1"
      and wr: "write_files now ?sd ?files r1 = (e, r2)"
      and burn: "r3 = r2
        \<or> Bun_write now [] (join ?sd [''.burn'']) (join_slash [''.burn'']) r2 = Inr r3"
    for r1 e r2 r3
  proof -
    have "\<not> prefix (join ?sd [''.burn'']) q \<and> \<not> prefix q (join ?sd [''.burn''])"
      using _ q by (rule incomparable_below) (simp add: join_burn)
    then have "lookup r3 q = lookup r2 q"
      using burn put_file_frame [of now "[]" "join ?sd [''.burn'']" "Some r2" r3 q] Bun_write_Inr
      by fastforce
    also have "\<dots> = lookup r1 q"
      using wr safe q by (rule write_files_frame)
    also have "\<dots> = lookup root q"
      using mkdir_p_frame [OF mk q] by simp
    finally show ?thesis .
  qed
  show ?thesis
    using pw
    by (auto simp: handleUpload_def Let_def split: option.splits sum.splits prod.splits
        intro: step)
qed

text \<open>
  Claim C1, as the code has it. \<open>handleUpload\<close> joins each file name to the share
  directory as it is sent; nothing is rejected or rewritten. When no file name of the
  request has a \<^verbatim>\<open>..\<close> segment, every file is written at a path inside the share's
  directory \<open>shareDir\<close>, and the request changes nothing outside it: every path that
  is neither inside \<open>shareDir\<close> nor one of the directories above it holds after the
  request (whatever its answer) what it held before.
\<close>

theorem handleUpload_writes_inside_share:
  assumes "x_password req = Some pw"
    and "shareDir = join (join (data_dir cfg) [''uploads'', hashPassword h pw]) [shareId]"
    and "safe_names (form_files req)"
  shows "(\<forall>name d. FileV name d \<in> set (form_files req) \<longrightarrow> prefix shareDir (join shareDir [name]))
    \<and> (\<forall>q. \<not> prefix shareDir q \<and> \<not> prefix q shareDir \<longrightarrow>
           lookup (snd (handleUpload cfg h shareId now req root)) q = lookup root q)"
proof (intro conjI allI impI)
  fix name d
  assume "FileV name d \<in> set (form_files req)"
  with assms(3) have "''..'' \<notin> set (split_slash name)"
    by (auto simp: safe_names_def list_all_iff)
  then show "prefix shareDir (join shareDir [name])"
    by (rule join_inside)
next
  fix q
  assume "\<not> prefix shareDir q \<and> \<not> prefix q shareDir"
  then have q: "\<not> prefix (join (join (data_dir cfg) [''uploads'', hashPassword h pw]) [shareId]) q"
    "\<not> prefix q (join (join (data_dir cfg) [''uploads'', hashPassword h pw]) [shareId])"
    unfolding assms(2) by blast+
  show "lookup (snd (handleUpload cfg h shareId now req root)) q = lookup root q"
    by (rule handleUpload_frame [OF assms(1,3) q])
qed

theorem handleUpload_writes_inside_share_witness:
  "lookup (snd (handleUpload example_config example_hash ''sid'' 0
             (example_request [FileV ''sub/./a.txt'' ''hello''] None)
             (uploads_tree [(''bbb'', Dir 0 [])])))
      [''data'', ''uploads'', ''bbb'']
   = Some (Dir 0 [])"
proof -
  let ?req = "example_request [FileV ''sub/./a.txt'' ''hello''] None"
  have a: "x_password ?req = Some ''pw''"
    by (simp add: example_request_def)
  have b: "[''data'', ''uploads'', ''abc'', ''sid''] =
      join (join (data_dir example_config) [''uploads'', hashPassword example_hash ''pw'']) [''sid'']"
    by (simp add: example_bucket example_config_def join_def)
  have c: "safe_names (form_files ?req)"
    by (simp add: safe_names_def example_request_def)
  have d: "\<not> prefix [''data'', ''uploads'', ''abc'', ''sid''] [''data'', ''uploads'', ''bbb'']
      \<and> \<not> prefix [''data'', ''uploads'', ''bbb''] [''data'', ''uploads'', ''abc'', ''sid'']"
    by simp
  from handleUpload_writes_inside_share [OF a b c, of 0 "uploads_tree [(''bbb'', Dir 0 [])]"] d
  have "lookup (snd (handleUpload example_config example_hash ''sid'' 0 ?req
             (uploads_tree [(''bbb'', Dir 0 [])]))) [''data'', ''uploads'', ''bbb'']
      = lookup (uploads_tree [(''bbb'', Dir 0 [])]) [''data'', ''uploads'', ''bbb'']"
    by blast
  then show ?thesis by (simp add: uploads_tree_def)
qed

text \<open>
  With a \<^verbatim>\<open>..\<close> segment the claim fails: the upload of a file named
  \<^verbatim>\<open>../../evil.txt\<close> is accepted (answered with the share's link, not \<open>BadRequest\<close>) and
  the file is written to \<^verbatim>\<open>data/uploads/evil.txt\<close>, outside the share's directory
  \<^verbatim>\<open>data/uploads/abc/sid\<close>.
\<close>

theorem handleUpload_traversal_counterexample:
  "handleUpload example_config example_hash ''sid'' 0
       (example_request [FileV ''../../evil.txt'' ''boo''] None) (uploads_tree [])
     = (ShareUrl ''/d/abc/sid'',
        Dir 0 [(''data'', Dir 0 [(''uploads'',
          Dir 0 [(''abc'', Dir 0 [(''sid'', Dir 0 [])]), (''evil.txt'', File ''boo'' 0)])])])
   \<and> join [''data'', ''uploads'', ''abc'', ''sid''] [''../../evil.txt'']
        = [''data'', ''uploads'', ''evil.txt'']
   \<and> \<not> prefix [''data'', ''uploads'', ''abc'', ''sid''] [''data'', ''uploads'', ''evil.txt'']"
  by (simp add: handleUpload_def Bun_write_def join_slash_def example_bucket getDirSize_def
      uploads_tree_def
        example_request_def example_config_def Let_def join_def)

section \<open>Download: proofs\<close>

lemma split_slash_no_slash: "CHR ''/'' \<notin> set f \<Longrightarrow> split_slash f = [f]"
  by (induction f) auto

lemma join_plain: "plain_name f \<Longrightarrow> join dir [f] = dir @ [f]"
  by (simp add: join_def plain_name_def split_slash_no_slash)

lemma lookup_append:
  "lookup root (p @ q) = (case lookup root p of None \<Rightarrow> None | Some n \<Rightarrow> lookup n q)"
proof (induction p arbitrary: root)
  case Nil
  then show ?case by simp
next
  case (Cons s p)
  then show ?case by (cases root) (simp_all split: option.splits)
qed

lemma read_file_entry:
  assumes "lookup root dir = Some (Dir m es)" and "plain_name f"
  shows "read_file root (join dir [f]) =
     (case map_of es f of
        None \<Rightarrow> Inl ENOENT
      | Some (File c t) \<Rightarrow> Inr c
      | Some (Dir t sub) \<Rightarrow> Inl EISDIR
      | Some Broken \<Rightarrow> Inl EACCES)"
  using assms by (simp add: read_file_def join_plain lookup_append split: option.splits)

lemma read_file_of_entry:
  assumes "lookup root dir = Some (Dir m es)" and "distinct (map fst es)"
    and "(f, n) \<in> set es" and "plain_name f" and "is_file n"
  shows "read_file root (join dir [f]) = Inr (contents n)"
proof -
  from assms(2,3) have "map_of es f = Some n" by simp
  with read_file_entry [OF assms(1,4)] assms(5) show ?thesis
    by (cases n) (simp_all add: is_file_def)
qed

lemma handleDownload_found:
  assumes parts: "filter (\<lambda>s. s \<noteq> []) (split_slash pathname) = d # bucket # shareId # rest"
    and dir: "lookup root (join (data_dir cfg) [''uploads'', bucket, shareId]) = Some (Dir m es)"
    and files: "filter (\<lambda>f. f \<noteq> ''.burn'') (map fst es) \<noteq> []"
  shows "handleDownload cfg mime now pathname root =
     (let shareDir = join (data_dir cfg) [''uploads'', bucket, shareId];
          files = filter (\<lambda>f. f \<noteq> ''.burn'') (map fst es)
      in (if length files = 1 \<and> files ! 0 \<noteq> []
          then FileResponse (files ! 0)
                 (if mime (files ! 0) = [] then ''application/octet-stream'' else mime (files ! 0))
                 (read_file root (join shareDir [files ! 0]))
          else ZipResponse (shareId @ ''.zip'')
                 (map (\<lambda>filename. (filename, read_file root (join shareDir [filename]))) files),
          if file_exists root (join shareDir [''.burn'']) then [(now + 1000, shareDir)] else []))"
proof -
  from parts have "bucket \<in> set (filter (\<lambda>s. s \<noteq> []) (split_slash pathname))"
    and "shareId \<in> set (filter (\<lambda>s. s \<noteq> []) (split_slash pathname))"
    by simp_all
  then have ne: "bucket \<noteq> []" "shareId \<noteq> []" by simp_all
  show ?thesis
    using ne dir files by (simp add: handleDownload_def parts readdir_def Let_def)
qed

lemma handleDownload_regular_share:
  assumes parts: "filter (\<lambda>s. s \<noteq> []) (split_slash pathname) = d # bucket # shareId # rest"
    and dir: "lookup root (join (data_dir cfg) [''uploads'', bucket, shareId]) = Some (Dir m es)"
    and dist: "distinct (map fst es)"
    and regular: "\<forall>(f, n) \<in> set es. plain_name f \<and> is_file n"
    and files: "files = filter (\<lambda>(f, n). f \<noteq> ''.burn'') es"
  shows "(\<forall>f n. files = [(f, n)] \<longrightarrow>
            fst (handleDownload cfg mime now pathname root) =
              FileResponse f (if mime f = [] then ''application/octet-stream'' else mime f)
                (Inr (contents n)))
       \<and> (length files > 1 \<longrightarrow>
            fst (handleDownload cfg mime now pathname root) =
              ZipResponse (shareId @ ''.zip'') (map (\<lambda>(f, n). (f, Inr (contents n))) files))"
proof -
  let ?sd = "join (data_dir cfg) [''uploads'', bucket, shareId]"
  have names: "filter (\<lambda>f. f \<noteq> ''.burn'') (map fst es) = map fst files"
    unfolding files by (induction es) auto
  have sub: "set files \<subseteq> set es"
    unfolding files by auto
  have rd: "read_file root (join ?sd [f]) = Inr (contents n)" if "(f, n) \<in> set files" for f n
  proof -
    from that sub have "(f, n) \<in> set es" by blast
    with regular have "plain_name f" "is_file n" by auto
    with dir dist \<open>(f, n) \<in> set es\<close> show ?thesis
      by (intro read_file_of_entry)
  qed
  show ?thesis
  proof (intro conjI allI impI)
    fix f n
    assume one: "files = [(f, n)]"
    then have "(f, n) \<in> set es" using sub by simp
    with regular have "f \<noteq> []" by (auto simp: plain_name_def)
    moreover have "map fst files \<noteq> []" using one by simp
    ultimately show "fst (handleDownload cfg mime now pathname root) =
        FileResponse f (if mime f = [] then ''application/octet-stream'' else mime f)
          (Inr (contents n))"
      using handleDownload_found [OF parts dir, of mime now] rd [of f n] one
      by (simp add: names Let_def)
  next
    assume more: "length files > 1"
    then have ne: "map fst files \<noteq> []" by auto
    have "map (\<lambda>filename. (filename, read_file root (join ?sd [filename]))) (map fst files)
        = map (\<lambda>(f, n). (f, Inr (contents n))) files"
      using rd by (auto simp: map_eq_conv)
    then show "fst (handleDownload cfg mime now pathname root) =
        ZipResponse (shareId @ ''.zip'') (map (\<lambda>(f, n). (f, Inr (contents n))) files)"
      using handleDownload_found [OF parts dir, of mime now] more ne
      by (simp add: names Let_def)
  qed
qed

text \<open>
  Claim C4, as the code has it. The request path is \<^verbatim>\<open>/d/<bucket>/<shareId>\<close> and the
  share's directory holds only regular files, no subdirectory; as in every directory,
  each name is listed once and is a single path segment. The entry \<^verbatim>\<open>.burn\<close>, if there
  is one, is the burn marker: the empty file that an upload with \<^verbatim>\<open>burn = "true"\<close> writes.
  \<open>files\<close> are the entries other than the marker, in listing order. When \<open>files\<close> is
  exactly one file, the answer is that file: its name, the content type of the name (or
  \<^verbatim>\<open>application/octet-stream\<close>), and its bytes. When there are more, the answer is the
  archive \<^verbatim>\<open><shareId>.zip\<close> whose entries are exactly these files, each under its name
  with its bytes.
\<close>

theorem handleDownload_serves_share:
  assumes parts: "filter (\<lambda>s. s \<noteq> []) (split_slash pathname) = d # bucket # shareId # rest"
    and dir: "lookup root (join (data_dir cfg) [''uploads'', bucket, shareId]) = Some (Dir m es)"
    and dist: "distinct (map fst es)"
    and regular: "\<forall>(f, n) \<in> set es. plain_name f \<and> is_file n"
    and marker: "\<forall>n. (''.burn'', n) \<in> set es \<longrightarrow> contents n = []"
    and files: "files = filter (\<lambda>(f, n). f \<noteq> ''.burn'') es"
  shows "(\<forall>f n. files = [(f, n)] \<longrightarrow>
            fst (handleDownload cfg mime now pathname root) =
              FileResponse f (if mime f = [] then ''application/octet-stream'' else mime f)
                (Inr (contents n)))
       \<and> (length files > 1 \<longrightarrow>
            fst (handleDownload cfg mime now pathname root) =
              ZipResponse (shareId @ ''.zip'') (map (\<lambda>(f, n). (f, Inr (contents n))) files))"
  using parts dir dist regular files by (rule handleDownload_regular_share)

theorem handleDownload_serves_share_witness:
  "fst (handleDownload example_config (\<lambda>name. []) 0 ''/d/abc/sid''
         (uploads_tree [(''abc'', Dir 0 [(''sid'',
            Dir 0 [(''a.txt'', File ''hello'' 0), (''.burn'', File [] 0), (''b.txt'', File ''bye'' 0)])])]))
     = ZipResponse ''sid.zip'' [(''a.txt'', Inr ''hello''), (''b.txt'', Inr ''bye'')]
   \<and> fst (handleDownload example_config (\<lambda>name. if name = ''a.txt'' then ''text/plain'' else []) 0
         ''/d/abc/one''
         (uploads_tree [(''abc'', Dir 0 [(''one'', Dir 0 [(''a.txt'', File ''hello'' 0)])])]))
     = FileResponse ''a.txt'' ''text/plain'' (Inr ''hello'')"
proof -
  let ?es = "[(''a.txt'', File ''hello'' 0), (''.burn'', File [] 0), (''b.txt'', File ''bye'' 0)]"
  let ?root = "uploads_tree [(''abc'', Dir 0 [(''sid'', Dir 0 ?es)])]"
  have a: "filter (\<lambda>s. s \<noteq> []) (split_slash ''/d/abc/sid'') = ''d'' # ''abc'' # ''sid'' # []"
    by simp
  have b: "lookup ?root (join (data_dir example_config) [''uploads'', ''abc'', ''sid''])
      = Some (Dir 0 ?es)"
    by (simp add: uploads_tree_def example_config_def join_def)
  have c: "distinct (map fst ?es)"
    by simp
  have d: "\<forall>(f, n) \<in> set ?es. plain_name f \<and> is_file n"
    by (simp add: plain_name_def is_file_def)
  have k: "\<forall>n. (''.burn'', n) \<in> set ?es \<longrightarrow> contents n = []"
    by simp
  have e: "[(''a.txt'', File ''hello'' 0), (''b.txt'', File ''bye'' 0)]
      = filter (\<lambda>(f, n). f \<noteq> ''.burn'') ?es"
    by simp
  let ?es1 = "[(''a.txt'', File ''hello'' 0)]"
  let ?root1 = "uploads_tree [(''abc'', Dir 0 [(''one'', Dir 0 ?es1)])]"
  let ?mime = "\<lambda>name. if name = ''a.txt'' then ''text/plain'' else []"
  have a1: "filter (\<lambda>s. s \<noteq> []) (split_slash ''/d/abc/one'') = ''d'' # ''abc'' # ''one'' # []"
    by simp
  have b1: "lookup ?root1 (join (data_dir example_config) [''uploads'', ''abc'', ''one''])
      = Some (Dir 0 ?es1)"
    by (simp add: uploads_tree_def example_config_def join_def)
  have c1: "distinct (map fst ?es1)"
    by simp
  have d1: "\<forall>(f, n) \<in> set ?es1. plain_name f \<and> is_file n"
    by (simp add: plain_name_def is_file_def)
  have k1: "\<forall>n. (''.burn'', n) \<in> set ?es1 \<longrightarrow> contents n = []"
    by simp
  have e1: "?es1 = filter (\<lambda>(f, n). f \<noteq> ''.burn'') ?es1"
    by simp
  from handleDownload_serves_share [OF a b c d k e, of "\<lambda>name. []" 0]
  have zip: "fst (handleDownload example_config (\<lambda>name. []) 0 ''/d/abc/sid'' ?root)
      = ZipResponse ''sid.zip'' [(''a.txt'', Inr ''hello''), (''b.txt'', Inr ''bye'')]"
    by simp
  from handleDownload_serves_share [OF a1 b1 c1 d1 k1 e1, of ?mime 0]
  have raw: "fst (handleDownload example_config ?mime 0 ''/d/abc/one'' ?root1)
      = FileResponse ''a.txt'' ''text/plain'' (Inr ''hello'')"
    by simp
  from zip raw show ?thesis by (rule conjI)
qed

text \<open>
  The claim fails for a share one of whose files was uploaded under a name with a slash.
  The upload of the two files \<^verbatim>\<open>a.txt\<close> and \<^verbatim>\<open>d/b.txt\<close> is accepted; the second is stored
  in the subdirectory \<^verbatim>\<open>d\<close> of the share's directory. The download lists the share's
  directory without descending: the archive it answers with has the entries \<^verbatim>\<open>a.txt\<close>
  and \<^verbatim>\<open>d\<close>, the second without the bytes of a file, and holds neither the name
  \<^verbatim>\<open>d/b.txt\<close> nor the contents of that file.
\<close>

theorem handleDownload_nested_name_counterexample:
  "handleUpload example_config example_hash ''sid'' 0
       (example_request [FileV ''a.txt'' ''A'', FileV ''d/b.txt'' ''B''] None) (uploads_tree [])
     = (ShareUrl ''/d/abc/sid'',
        uploads_tree [(''abc'', Dir 0 [(''sid'',
          Dir 0 [(''a.txt'', File ''A'' 0), (''d'', Dir 0 [(''b.txt'', File ''B'' 0)])])])])
   \<and> fst (handleDownload example_config (\<lambda>name. []) 5 ''/d/abc/sid''
       (uploads_tree [(''abc'', Dir 0 [(''sid'',
          Dir 0 [(''a.txt'', File ''A'' 0), (''d'', Dir 0 [(''b.txt'', File ''B'' 0)])])])]))
     = ZipResponse ''sid.zip'' [(''a.txt'', Inr ''A''), (''d'', Inl EISDIR)]"
  by (simp add: handleUpload_def Bun_write_def join_slash_def handleDownload_def example_bucket
      getDirSize_def uploads_tree_def example_request_def example_config_def Let_def join_def
      readdir_def read_file_def file_exists_def)

text \<open>
  A file uploaded under the name \<^verbatim>\<open>.burn\<close> stands where the marker would: the upload of
  the two files \<^verbatim>\<open>a.txt\<close> and \<^verbatim>\<open>.burn\<close> without the \<^verbatim>\<open>burn\<close> field is accepted and stored,
  and the download of this share is answered with the bytes of \<^verbatim>\<open>a.txt\<close> alone and sets
  the timer that removes the share. The handlers' comments know the marker only as what
  an upload with \<^verbatim>\<open>burn = "true"\<close> creates.
\<close>

lemma handleDownload_file_named_burn:
  "handleUpload example_config example_hash ''sid'' 0
       (example_request [FileV ''a.txt'' ''A'', FileV ''.burn'' ''B''] None) (uploads_tree [])
     = (ShareUrl ''/d/abc/sid'',
        uploads_tree [(''abc'', Dir 0 [(''sid'',
          Dir 0 [(''a.txt'', File ''A'' 0), (''.burn'', File ''B'' 0)])])])
   \<and> handleDownload example_config (\<lambda>name. []) 5 ''/d/abc/sid''
       (uploads_tree [(''abc'', Dir 0 [(''sid'',
          Dir 0 [(''a.txt'', File ''A'' 0), (''.burn'', File ''B'' 0)])])])
     = (FileResponse ''a.txt'' ''application/octet-stream'' (Inr ''A''),
        [(1005, [''data'', ''uploads'', ''abc'', ''sid''])])"
  by (simp add: handleUpload_def Bun_write_def join_slash_def handleDownload_def example_bucket
      getDirSize_def uploads_tree_def example_request_def example_config_def Let_def join_def
      readdir_def read_file_def file_exists_def)

section \<open>Burn after download: proofs\<close>

lemma normalize_onto_append:
  "normalize_onto stack (ss @ ts) = normalize_onto (rev (normalize_onto stack ss)) ts"
  by (induction ss arbitrary: stack) auto

lemma join_last_plain:
  assumes "plain_name c"
  shows "join dir (parts @ [c]) = join dir parts @ [c]"
proof -
  have "split_slash c = [c]"
    using assms by (simp add: plain_name_def split_slash_no_slash)
  then show ?thesis
    using assms by (simp add: join_def normalize_onto_append plain_name_def)
qed

lemma map_of_remove_entry: "map_of (remove_entry s es) s = None"
  by (auto simp: remove_entry_def map_of_eq_None_iff)

lemma rm_recursive_removes:
  assumes "p \<noteq> []" and "lookup n p = Some (Dir m es)"
  shows "\<exists>n'. rm now True p n = Inr n' \<and> lookup n' p = None"
  using assms
proof (induction p arbitrary: n)
  case Nil
  then show ?case by simp
next
  case (Cons s p)
  from Cons.prems(2) obtain m0 es0 c where n: "n = Dir m0 es0" and c: "map_of es0 s = Some c"
    and look: "lookup c p = Some (Dir m es)"
    by (cases n) (auto split: option.splits)
  show ?case
  proof (cases "p = []")
    case True
    with look have "c = Dir m es" by simp
    then show ?thesis
      using n c True by (simp add: map_of_remove_entry)
  next
    case False
    from Cons.IH [OF False look] obtain c' where "rm now True p c = Inr c'"
      and "lookup c' p = None"
      by blast
    then show ?thesis
      using n c False by (simp add: map_of_upd_entry)
  qed
qed

lemma map_of_remove_entry_other: "t \<noteq> s \<Longrightarrow> map_of (remove_entry s es) t = map_of es t"
  by (induction es) (auto simp: remove_entry_def)

lemma readdir_fails_iff: "isl (readdir root p) \<longleftrightarrow> (\<forall>m es. lookup root p \<noteq> Some (Dir m es))"
  by (auto simp: readdir_def split: option.splits node.splits)

lemma rm_keeps_not_dir:
  assumes "rm now r p n = Inr n'" and "\<forall>m es. lookup n q \<noteq> Some (Dir m es)"
  shows "\<forall>m es. lookup n' q \<noteq> Some (Dir m es)"
  using assms
proof (induction p arbitrary: n n' q)
  case Nil
  then show ?case by simp
next
  case (Cons s p)
  from Cons.prems(1) obtain m0 es0 c where n: "n = Dir m0 es0" and c: "map_of es0 s = Some c"
    by (cases n) (auto split: option.splits)
  from Cons.prems(2) n obtain t q' where q: "q = t # q'"
    by (cases q) auto
  show ?case
  proof (cases "p = []")
    case True
    with Cons.prems(1) n c have n': "n' = Dir now (remove_entry s es0)"
      by (auto split: node.splits if_splits)
    show ?thesis
    proof (cases "t = s")
      case True
      then show ?thesis using n' q by (simp add: map_of_remove_entry)
    next
      case False
      then show ?thesis using n' q n Cons.prems(2) by (simp add: map_of_remove_entry_other)
    qed
  next
    case False
    with Cons.prems(1) n c obtain c' where c': "rm now r p c = Inr c'"
      and n': "n' = Dir m0 (upd_entry s c' es0)"
      by (auto split: sum.splits)
    show ?thesis
    proof (cases "t = s")
      case True
      from Cons.prems(2) n c q True have "\<forall>m es. lookup c q' \<noteq> Some (Dir m es)" by simp
      from Cons.IH [OF c' this] show ?thesis
        using n' q True by (simp add: map_of_upd_entry)
    next
      case False
      then show ?thesis using n' q n Cons.prems(2) by (simp add: map_of_upd_entry)
    qed
  qed
qed

lemma rm_recursive_not_listable:
  assumes "p \<noteq> []"
  shows "isl (readdir (case rm now True p root of Inl e \<Rightarrow> root | Inr root' \<Rightarrow> root') p)"
proof (cases "\<exists>m es. lookup root p = Some (Dir m es)")
  case True
  then obtain m es where "lookup root p = Some (Dir m es)" by blast
  from rm_recursive_removes [OF assms this, of now] show ?thesis
    by (auto simp: readdir_def)
next
  case False
  then have nd: "\<forall>m es. lookup root p \<noteq> Some (Dir m es)" by simp
  show ?thesis
  proof (cases "rm now True p root")
    case (Inl e)
    then show ?thesis using nd by (simp add: readdir_fails_iff)
  next
    case (Inr root')
    from rm_keeps_not_dir [OF Inr nd] show ?thesis
      using Inr by (simp add: readdir_fails_iff)
  qed
qed

lemma fire_timers_keeps_not_listable:
  assumes "fire_timers now ts root = (ts', root')" and "isl (readdir root p)"
  shows "isl (readdir root' p)"
  using assms
proof (induction ts arbitrary: root ts' root')
  case Nil
  then show ?case by simp
next
  case (Cons a ts)
  obtain due dir where a: "a = (due, dir)" by (cases a)
  show ?case
  proof (cases "due \<le> now")
    case True
    let ?r = "case rm now True dir root of Inl e \<Rightarrow> root | Inr r \<Rightarrow> r"
    have "isl (readdir ?r p)"
    proof (cases "rm now True dir root")
      case (Inl e)
      then show ?thesis using Cons.prems(2) by simp
    next
      case (Inr r)
      from rm_keeps_not_dir [OF Inr] Cons.prems(2) show ?thesis
        using Inr by (simp add: readdir_fails_iff)
    qed
    moreover have "fire_timers now ts ?r = (ts', root')"
      using Cons.prems(1) a True by simp
    ultimately show ?thesis using Cons.IH by blast
  next
    case False
    obtain ts1 r1 where f: "fire_timers now ts root = (ts1, r1)"
      by (cases "fire_timers now ts root")
    with Cons.prems(1) a False have "root' = r1" by simp
    with Cons.IH [OF f Cons.prems(2)] show ?thesis by simp
  qed
qed

lemma fire_timers_snoc_due:
  assumes "due \<le> now"
  shows "fire_timers now (ts @ [(due, dir)]) root =
     (fst (fire_timers now ts root),
      case rm now True dir (snd (fire_timers now ts root)) of
        Inl e \<Rightarrow> snd (fire_timers now ts root) | Inr r \<Rightarrow> r)"
  using assms
proof (induction ts arbitrary: root)
  case Nil
  then show ?case by (simp split: sum.splits)
next
  case (Cons a ts)
  obtain d' dir' where a: "a = (d', dir')" by (cases a)
  show ?case
    using Cons.IH [OF Cons.prems] a by (simp split: prod.splits cong: sum.case_cong)
qed

lemma handleDownload_not_listable:
  assumes "filter (\<lambda>s. s \<noteq> []) (split_slash pathname) = d # bucket # shareId # rest"
    and "isl (readdir root (join (data_dir cfg) [''uploads'', bucket, shareId]))"
  shows "handleDownload cfg mime now pathname root = (NotFound, [])"
proof -
  from assms(1) have "bucket \<in> set (filter (\<lambda>s. s \<noteq> []) (split_slash pathname))"
    and "shareId \<in> set (filter (\<lambda>s. s \<noteq> []) (split_slash pathname))"
    by simp_all
  then have "bucket \<noteq> []" "shareId \<noteq> []" by simp_all
  then show ?thesis
    using assms by (auto simp: handleDownload_def Let_def split: sum.splits)
qed

lemma serve_downloads_gone:
  assumes "filter (\<lambda>s. s \<noteq> []) (split_slash pathname) = d # bucket # shareId # rest"
    and "isl (readdir (fs w) (join (data_dir cfg) [''uploads'', bucket, shareId]))"
  shows "serve_downloads cfg mime pathname ts w = replicate (length ts) NotFound"
  using assms(2)
proof (induction ts arbitrary: w)
  case Nil
  then show ?case by simp
next
  case (Cons t ts)
  obtain pending root' where f: "fire_timers t (timers w) (fs w) = (pending, root')"
    by (cases "fire_timers t (timers w) (fs w)")
  from fire_timers_keeps_not_listable [OF f Cons.prems]
  have gone: "isl (readdir root' (join (data_dir cfg) [''uploads'', bucket, shareId]))" .
  have "download_request cfg mime t pathname w = (NotFound, \<lparr>fs = root', timers = pending\<rparr>)"
    using f handleDownload_not_listable [OF assms(1) gone, of mime t]
    by (simp add: download_request_def)
  then show ?case
    using Cons.IH [of "\<lparr>fs = root', timers = pending\<rparr>"] gone by simp
qed

lemma fire_timers_none_due:
  assumes "\<forall>(due, dir) \<in> set ts. now < due"
  shows "fire_timers now ts root = (ts, root)"
  using assms by (induction ts arbitrary: root) auto

text \<open>
  Claim C3, as the code has it. A download request at time \<open>t1\<close> is served on the tree
  \<open>root1\<close> that the timers due by then leave; the share id is an ordinary name, as the
  ids are that an upload generates. The share's directory holds there the burn
  marker and, besides it, at least one entry and only regular files (no subdirectory;
  as in every directory, each name is listed once and is a single path segment);
  \<open>files\<close> are the entries other than the marker. The first download is then answered
  with the share's files: with the one file, its name, content type and bytes, or with
  the archive of all of them. It removes nothing itself and sets a timer that removes the
  share's directory 1000 ms later. Every download request for the same path that
  arrives once this timer is due, at \<open>t1 + 1000\<close> or later, is answered \<open>NotFound\<close>. A
  request that arrives before, while no other timer is due, is answered as the first was.
\<close>

theorem burn_share_downloads:
  assumes parts: "filter (\<lambda>s. s \<noteq> []) (split_slash pathname) = d # bucket # shareId # rest"
    and plain: "plain_name shareId"
    and sd: "shareDir = join (data_dir cfg) [''uploads'', bucket, shareId]"
    and fired: "fire_timers t1 (timers w) (fs w) = (pending, root1)"
    and dir: "lookup root1 shareDir = Some (Dir m es)"
    and dist: "distinct (map fst es)"
    and regular: "\<forall>(f, n) \<in> set es. plain_name f \<and> is_file n"
    and marker: "map_of es ''.burn'' = Some (File [] t)"
    and files: "files = filter (\<lambda>(f, n). f \<noteq> ''.burn'') es"
    and some: "files \<noteq> []"
    and later: "\<forall>t \<in> set ts. t1 + 1000 \<le> t"
  shows "serve_downloads cfg mime pathname (t1 # ts) w =
           fst (handleDownload cfg mime t1 pathname root1) # replicate (length ts) NotFound
       \<and> (\<forall>f n. files = [(f, n)] \<longrightarrow>
            fst (handleDownload cfg mime t1 pathname root1) =
              FileResponse f (if mime f = [] then ''application/octet-stream'' else mime f)
                (Inr (contents n)))
       \<and> (length files > 1 \<longrightarrow>
            fst (handleDownload cfg mime t1 pathname root1) =
              ZipResponse (shareId @ ''.zip'') (map (\<lambda>(f, n). (f, Inr (contents n))) files))
       \<and> snd (download_request cfg mime t1 pathname w)
           = \<lparr>fs = root1, timers = pending @ [(t1 + 1000, shareDir)]\<rparr>
       \<and> (\<forall>t2 < t1 + 1000. (\<forall>(due, dir) \<in> set pending. t2 < due) \<longrightarrow>
            fst (download_request cfg mime t2 pathname (snd (download_request cfg mime t1 pathname w)))
              = fst (handleDownload cfg mime t1 pathname root1))"
proof -
  have names: "filter (\<lambda>f. f \<noteq> ''.burn'') (map fst es) = map fst files"
    unfolding files by (induction es) auto
  with some have ne_files: "filter (\<lambda>f. f \<noteq> ''.burn'') (map fst es) \<noteq> []"
    by simp
  have found: "handleDownload cfg mime now pathname root1 =
     (let shareDir = join (data_dir cfg) [''uploads'', bucket, shareId];
          files = filter (\<lambda>f. f \<noteq> ''.burn'') (map fst es)
      in (if length files = 1 \<and> files ! 0 \<noteq> []
          then FileResponse (files ! 0)
                 (if mime (files ! 0) = [] then ''application/octet-stream'' else mime (files ! 0))
                 (read_file root1 (join shareDir [files ! 0]))
          else ZipResponse (shareId @ ''.zip'')
                 (map (\<lambda>filename. (filename, read_file root1 (join shareDir [filename]))) files),
          if file_exists root1 (join shareDir [''.burn'']) then [(now + 1000, shareDir)] else []))"
    for now
    using parts dir [unfolded sd] ne_files by (rule handleDownload_found)
  have same: "fst (handleDownload cfg mime now pathname root1)
      = fst (handleDownload cfg mime t1 pathname root1)" for now
    unfolding found by (simp add: Let_def)
  have burn: "file_exists root1 (join shareDir [''.burn''])"
    using dir marker by (simp add: file_exists_def join_burn lookup_append)
  have set_now: "snd (handleDownload cfg mime t1 pathname root1) = [(t1 + 1000, shareDir)]"
    unfolding found using burn sd by (simp add: Let_def)
  let ?w1 = "\<lparr>fs = root1, timers = pending @ [(t1 + 1000, shareDir)]\<rparr>"
  have first: "download_request cfg mime t1 pathname w =
      (fst (handleDownload cfg mime t1 pathname root1), ?w1)"
    using fired set_now by (auto simp: download_request_def split: prod.splits)
  have "join (data_dir cfg) ([''uploads'', bucket] @ [shareId])
      = join (data_dir cfg) [''uploads'', bucket] @ [shareId]"
    using plain by (rule join_last_plain)
  then have ne: "shareDir \<noteq> []"
    using sd by simp
  have rest: "serve_downloads cfg mime pathname ts ?w1 = replicate (length ts) NotFound"
  proof (cases ts)
    case Nil
    then show ?thesis by simp
  next
    case (Cons t2 ts')
    with later have due: "t1 + 1000 \<le> t2" by simp
    obtain pending2 root2 where f2: "fire_timers t2 (timers ?w1) (fs ?w1) = (pending2, root2)"
      by (cases "fire_timers t2 (timers ?w1) (fs ?w1)")
    have "root2 = (case rm t2 True shareDir (snd (fire_timers t2 pending root1)) of
        Inl e \<Rightarrow> snd (fire_timers t2 pending root1) | Inr r \<Rightarrow> r)"
      using f2 fire_timers_snoc_due [OF due, of pending shareDir root1] by simp
    then have gone: "isl (readdir root2 (join (data_dir cfg) [''uploads'', bucket, shareId]))"
      using rm_recursive_not_listable [OF ne, where now = t2
          and root = "snd (fire_timers t2 pending root1)"] sd
      by simp
    have "download_request cfg mime t2 pathname ?w1 =
        (NotFound, \<lparr>fs = root2, timers = pending2\<rparr>)"
      using f2 handleDownload_not_listable [OF parts gone, of mime t2]
      by (simp add: download_request_def)
    moreover have "serve_downloads cfg mime pathname ts' \<lparr>fs = root2, timers = pending2\<rparr>
        = replicate (length ts') NotFound"
      using parts gone by (intro serve_downloads_gone) simp_all
    ultimately show ?thesis using Cons by simp
  qed
  have again: "fst (download_request cfg mime t2 pathname ?w1)
      = fst (handleDownload cfg mime t1 pathname root1)"
    if "t2 < t1 + 1000" and "\<forall>(due, dir) \<in> set pending. t2 < due" for t2
  proof -
    from that have "\<forall>(due, dir) \<in> set (pending @ [(t1 + 1000, shareDir)]). t2 < due"
      by auto
    then have "fire_timers t2 (pending @ [(t1 + 1000, shareDir)]) root1
        = (pending @ [(t1 + 1000, shareDir)], root1)"
      by (rule fire_timers_none_due)
    then have "fst (download_request cfg mime t2 pathname ?w1)
        = fst (handleDownload cfg mime t2 pathname root1)"
      by (simp add: download_request_def split: prod.splits)
    then show ?thesis using same [of t2] by simp
  qed
  note served = handleDownload_regular_share [OF parts dir [unfolded sd] dist regular files,
      of mime t1]
  show ?thesis
  proof (intro conjI)
    show "serve_downloads cfg mime pathname (t1 # ts) w =
        fst (handleDownload cfg mime t1 pathname root1) # replicate (length ts) NotFound"
      using first rest by simp
    show "\<forall>f n. files = [(f, n)] \<longrightarrow>
        fst (handleDownload cfg mime t1 pathname root1) =
          FileResponse f (if mime f = [] then ''application/octet-stream'' else mime f)
            (Inr (contents n))"
      using served by (rule conjunct1)
    show "length files > 1 \<longrightarrow>
        fst (handleDownload cfg mime t1 pathname root1) =
          ZipResponse (shareId @ ''.zip'') (map (\<lambda>(f, n). (f, Inr (contents n))) files)"
      using served by (rule conjunct2)
    show "snd (download_request cfg mime t1 pathname w) = ?w1"
      using first by simp
    show "\<forall>t2 < t1 + 1000. (\<forall>(due, dir) \<in> set pending. t2 < due) \<longrightarrow>
        fst (download_request cfg mime t2 pathname (snd (download_request cfg mime t1 pathname w)))
          = fst (handleDownload cfg mime t1 pathname root1)"
      using first again by simp
  qed
qed

theorem burn_share_downloads_witness:
  "serve_downloads example_config (\<lambda>name. []) ''/d/abc/sid'' [0, 1000, 5000]
     \<lparr>fs = uploads_tree [(''abc'', Dir 0 [(''sid'',
              Dir 0 [(''a.txt'', File ''hello'' 0), (''.burn'', File [] 0)])])],
      timers = []\<rparr>
     = [FileResponse ''a.txt'' ''application/octet-stream'' (Inr ''hello''), NotFound, NotFound]
   \<and> fst (download_request example_config (\<lambda>name. []) 999 ''/d/abc/sid''
       (snd (download_request example_config (\<lambda>name. []) 0 ''/d/abc/sid''
          \<lparr>fs = uploads_tree [(''abc'', Dir 0 [(''sid'',
                   Dir 0 [(''a.txt'', File ''hello'' 0), (''.burn'', File [] 0)])])],
           timers = []\<rparr>)))
     = FileResponse ''a.txt'' ''application/octet-stream'' (Inr ''hello'')"
proof -
  let ?es = "[(''a.txt'', File ''hello'' 0), (''.burn'', File [] 0)]"
  let ?root = "uploads_tree [(''abc'', Dir 0 [(''sid'', Dir 0 ?es)])]"
  let ?w = "\<lparr>fs = ?root, timers = []\<rparr>"
  let ?mime = "\<lambda>name::string. []::string"
  have a: "filter (\<lambda>s. s \<noteq> []) (split_slash ''/d/abc/sid'') = ''d'' # ''abc'' # ''sid'' # []"
    by simp
  have b: "plain_name ''sid''"
    by (simp add: plain_name_def)
  have c: "[''data'', ''uploads'', ''abc'', ''sid'']
      = join (data_dir example_config) [''uploads'', ''abc'', ''sid'']"
    by (simp add: example_config_def join_def)
  have p: "fire_timers 0 (timers ?w) (fs ?w) = ([], ?root)"
    by simp
  have d: "lookup ?root [''data'', ''uploads'', ''abc'', ''sid''] = Some (Dir 0 ?es)"
    by (simp add: uploads_tree_def)
  have e: "distinct (map fst ?es)"
    by simp
  have f: "\<forall>(f, n) \<in> set ?es. plain_name f \<and> is_file n"
    by (simp add: plain_name_def is_file_def)
  have g: "map_of ?es ''.burn'' = Some (File [] 0)"
    by simp
  have h: "[(''a.txt'', File ''hello'' 0)] = filter (\<lambda>(f, n). f \<noteq> ''.burn'') ?es"
    by simp
  have i: "[(''a.txt'', File ''hello'' 0)] \<noteq> []"
    by simp
  have j: "\<forall>t \<in> set [1000, 5000]. 0 + 1000 \<le> (t::int)"
    by simp
  note inst = burn_share_downloads [OF a b c p d e f g h i j, of ?mime]
  from inst have first: "fst (handleDownload example_config ?mime 0 ''/d/abc/sid'' ?root)
      = FileResponse ''a.txt'' ''application/octet-stream'' (Inr ''hello'')"
    by simp
  have r: "replicate (length [1000, 5000::int]) NotFound = [NotFound, NotFound]"
    by simp
  have "serve_downloads example_config ?mime ''/d/abc/sid'' (0 # [1000, 5000]) ?w
      = fst (handleDownload example_config ?mime 0 ''/d/abc/sid'' ?root)
          # replicate (length [1000, 5000::int]) NotFound"
    using inst by (rule conjunct1)
  then have served: "serve_downloads example_config ?mime ''/d/abc/sid'' [0, 1000, 5000] ?w
      = [FileResponse ''a.txt'' ''application/octet-stream'' (Inr ''hello''), NotFound, NotFound]"
    unfolding first r .
  have "\<forall>t2 < 0 + 1000. (\<forall>(due, dir) \<in> set ([]::(int \<times> path) list). t2 < due) \<longrightarrow>
      fst (download_request example_config ?mime t2 ''/d/abc/sid''
            (snd (download_request example_config ?mime 0 ''/d/abc/sid'' ?w)))
        = fst (handleDownload example_config ?mime 0 ''/d/abc/sid'' ?root)"
    using inst [THEN conjunct2, THEN conjunct2, THEN conjunct2, THEN conjunct2] .
  from this [rule_format, of 999]
  have again: "fst (download_request example_config ?mime 999 ''/d/abc/sid''
            (snd (download_request example_config ?mime 0 ''/d/abc/sid'' ?w)))
        = FileResponse ''a.txt'' ''application/octet-stream'' (Inr ''hello'')"
    unfolding first by simp
  from served again show ?thesis by (rule conjI)
qed

text \<open>
  The claim as stated, retrievable exactly once, fails inside the timer's second: a second
  request 999 ms after the first is answered with the file again.
\<close>

theorem burn_share_second_download_counterexample:
  "serve_downloads example_config (\<lambda>name. []) ''/d/abc/sid'' [0, 999]
     \<lparr>fs = uploads_tree [(''abc'', Dir 0 [(''sid'',
              Dir 0 [(''a.txt'', File ''hello'' 0), (''.burn'', File [] 0)])])],
      timers = []\<rparr>
   = [FileResponse ''a.txt'' ''application/octet-stream'' (Inr ''hello''),
      FileResponse ''a.txt'' ''application/octet-stream'' (Inr ''hello'')]"
  by (simp add: download_request_def handleDownload_def readdir_def read_file_def file_exists_def
      uploads_tree_def example_config_def join_def Let_def)

text \<open>
  The first download needs a file to serve: an upload whose \<^verbatim>\<open>files\<close> field holds only a
  string is accepted with \<^verbatim>\<open>burn = "true"\<close>, the share's directory then holds the marker
  alone, and its download is answered \<open>NotFound\<close>.
\<close>

lemma burn_share_without_files:
  "handleUpload example_config example_hash ''sid'' 0
       (example_request [TextV ''note''] (Some (TextV ''true''))) (uploads_tree [])
     = (ShareUrl ''/d/abc/sid'',
        uploads_tree [(''abc'', Dir 0 [(''sid'', Dir 0 [(''.burn'', File [] 0)])])])
   \<and> handleDownload example_config (\<lambda>name. []) 5 ''/d/abc/sid''
       (uploads_tree [(''abc'', Dir 0 [(''sid'', Dir 0 [(''.burn'', File [] 0)])])])
     = (NotFound, [])"
  by (simp add: handleUpload_def Bun_write_def join_slash_def handleDownload_def example_bucket
      getDirSize_def uploads_tree_def
      example_request_def example_config_def Let_def join_def readdir_def read_file_def
      file_exists_def)

lemma put_file_lookup: "put_file now d p no = Inr n' \<Longrightarrow> lookup n' p = Some (File d now)"
proof (induction p arbitrary: no n')
  case Nil
  then show ?case by (cases no; cases "the no") auto
next
  case (Cons s p)
  show ?case
  proof (cases no)
    case None
    with Cons.prems obtain n'' where "put_file now d p None = Inr n''" "n' = Dir now [(s, n'')]"
      by (auto split: sum.splits)
    with Cons.IH show ?thesis by simp
  next
    case (Some n)
    show ?thesis
    proof (cases n)
      case (Dir m es)
      with Some Cons.prems obtain n'' where "put_file now d p (map_of es s) = Inr n''"
        "n' = Dir (if map_of es s = None then now else m) (upd_entry s n'' es)"
        by (auto split: sum.splits)
      with Cons.IH show ?thesis by (simp add: map_of_upd_entry)
    qed (use Some Cons.prems in simp_all)
  qed
qed

text \<open>
  An upload with \<^verbatim>\<open>burn = "true"\<close> that is answered with a link has written the marker:
  the empty file \<^verbatim>\<open>.burn\<close> in the share's directory.
\<close>

lemma handleUpload_burn_marker:
  assumes "x_password req = Some pw" and "form_burn req = Some (TextV ''true'')"
    and "fst (handleUpload cfg h shareId now req root) = ShareUrl u"
  shows "lookup (snd (handleUpload cfg h shareId now req root))
           (join (join (join (data_dir cfg) [''uploads'', hashPassword h pw]) [shareId]) [''.burn''])
         = Some (File [] now)"
  using assms
  by (auto simp: handleUpload_def Bun_write_def join_slash_def Let_def put_file_lookup
      split: option.splits sum.splits prod.splits if_splits)

section \<open>Sequences of uploads: proofs\<close>

lemma hex_digit_in: "d < 16 \<Longrightarrow> hex_digit d \<in> set ''0123456789abcdef''"
  unfolding hex_digit_def by (rule nth_mem) simp

lemma toString16_hex: "set (toString16 n) \<subseteq> set ''0123456789abcdef''"
proof (induction n rule: toString16.induct)
  case (1 n)
  show ?case
  proof (cases "n < 16")
    case True
    then show ?thesis
      using hex_digit_in [of n] by (subst toString16.simps) simp
  next
    case False
    have "hex_digit (n mod 16) \<in> set ''0123456789abcdef''"
      by (rule hex_digit_in) simp
    with "1.IH" [OF False] False show ?thesis
      by (subst toString16.simps) simp
  qed
qed

lemma hashPassword_plain: "plain_name (hashPassword h pw)"
proof -
  let ?s = "toString16 (unat (h pw))"
  have sub: "set (hashPassword h pw) \<subseteq> set ''0123456789abcdef''"
    using toString16_hex [of "unat (h pw)"] set_take_subset [of 12 ?s]
    by (auto simp: hashPassword_def slice_def)
  have ne: "hashPassword h pw \<noteq> []"
    using toString16_not_Nil [of "unat (h pw)"] by (simp add: hashPassword_def slice_def)
  have "CHR ''/'' \<notin> set (hashPassword h pw)" "CHR ''.'' \<notin> set (hashPassword h pw)"
    using sub by auto
  then show ?thesis
    using ne by (auto simp: plain_name_def)
qed

lemma other_bucket_incomparable:
  assumes "plain_name b" and "plain_name hb" and "plain_name sid" and "b \<noteq> hb"
  shows "\<not> prefix (join (join dd [''uploads'', hb]) [sid]) (join dd [''uploads'', b])
       \<and> \<not> prefix (join dd [''uploads'', b]) (join (join dd [''uploads'', hb]) [sid])"
proof -
  let ?U = "join dd [''uploads'']"
  have b: "join dd [''uploads'', b] = ?U @ [b]"
    using join_last_plain [OF assms(1), of dd "[''uploads'']"] by simp
  have hb: "join dd [''uploads'', hb] = ?U @ [hb]"
    using join_last_plain [OF assms(2), of dd "[''uploads'']"] by simp
  have sd: "join (join dd [''uploads'', hb]) [sid] = ?U @ [hb, sid]"
    unfolding hb using join_plain [OF assms(3)] by simp
  show ?thesis
    unfolding b sd using assms(4) by simp
qed

lemma handleUpload_changed_fits:
  assumes "x_password req = Some pw"
  shows "snd (handleUpload cfg h shareId now req root) = root
       \<or> int (getDirSize root (join (data_dir cfg) [''uploads'', hashPassword h pw]))
            + int (uploadSize (form_files req)) \<le> max_bucket_size_mb cfg * 1024 * 1024"
  using assms by (auto simp: handleUpload_def Let_def)

lemma handleUpload_keeps_bound:
  assumes safe: "safe_names (form_files req)" and sid: "plain_name shareId"
    and b: "plain_name b"
    and inv: "int (getDirSize root (join (data_dir cfg) [''uploads'', b]))
                \<le> max_bucket_size_mb cfg * 1024 * 1024"
  shows "int (getDirSize (snd (handleUpload cfg h shareId now req root))
                (join (data_dir cfg) [''uploads'', b]))
           \<le> max_bucket_size_mb cfg * 1024 * 1024"
proof (cases "x_password req")
  case None
  then show ?thesis using inv by (simp add: handleUpload_def)
next
  case (Some pw)
  let ?D = "join (data_dir cfg) [''uploads'', b]"
  let ?root' = "snd (handleUpload cfg h shareId now req root)"
  show ?thesis
  proof (cases "b = hashPassword h pw")
    case True
    from handleUpload_changed_fits [OF Some, of cfg h shareId now root]
    consider "?root' = root"
      | "int (getDirSize root ?D) + int (uploadSize (form_files req))
           \<le> max_bucket_size_mb cfg * 1024 * 1024"
      using True by auto
    then show ?thesis
    proof cases
      case 1
      then show ?thesis using inv by simp
    next
      case 2
      have "getDirSize ?root' ?D \<le> getDirSize root ?D + uploadSize (form_files req)"
        unfolding getDirSize_size_at by (rule handleUpload_size_at)
      with 2 show ?thesis by linarith
    qed
  next
    case False
    from other_bucket_incomparable [OF b hashPassword_plain sid False, where dd = "data_dir cfg"]
    have "lookup ?root' ?D = lookup root ?D"
      by (intro handleUpload_frame [OF Some safe]) simp_all
    then show ?thesis using inv by (simp add: getDirSize_def)
  qed
qed

lemma run_uploads_keeps_bound:
  assumes "\<forall>(shareId, now, req) \<in> set reqs. safe_names (form_files req) \<and> plain_name shareId"
    and "plain_name b"
    and "int (getDirSize root (join (data_dir cfg) [''uploads'', b]))
           \<le> max_bucket_size_mb cfg * 1024 * 1024"
  shows "int (getDirSize (run_uploads cfg h reqs root) (join (data_dir cfg) [''uploads'', b]))
           \<le> max_bucket_size_mb cfg * 1024 * 1024"
  using assms
proof (induction reqs arbitrary: root)
  case Nil
  then show ?case by simp
next
  case (Cons r reqs)
  obtain shareId now req where r: "r = (shareId, now, req)" by (cases r)
  from Cons.prems(1) r have safe: "safe_names (form_files req)" and sid: "plain_name shareId"
    and rest: "\<forall>(shareId, now, req) \<in> set reqs. safe_names (form_files req) \<and> plain_name shareId"
    by auto
  have "int (getDirSize (snd (handleUpload cfg h shareId now req root))
          (join (data_dir cfg) [''uploads'', b])) \<le> max_bucket_size_mb cfg * 1024 * 1024"
    using safe sid Cons.prems(2,3) by (rule handleUpload_keeps_bound)
  from Cons.IH [OF rest Cons.prems(2) this] show ?case
    using r by simp
qed

text \<open>
  Claim C2, as the code has it. The size the check uses is the one \<open>getDirSize\<close>
  measures; for a bucket all of whose entries can be accessed it is the number of bytes
  the bucket holds. One upload: when its size added to the measured size of the bucket of
  its password exceeds the maximum, the tree is left as it was and the answer is no link;
  with an allow-listed password and at least one form entry the answer is
  \<open>QuotaExceeded\<close>. After every upload that is answered with a link, the measured size of
  the bucket the upload was made to is at most the maximum, and so is the number of bytes
  the bucket holds when all its entries can be accessed. An upload whose file names have
  no \<^verbatim>\<open>..\<close> segment leaves everything outside its share directory as it was. A sequence
  of uploads: when no file name has a \<^verbatim>\<open>..\<close> segment, a bucket that measures at most
  the maximum before the sequence measures at most the maximum after every upload of it,
  and holds at most that many bytes whenever all its entries can be accessed.
\<close>

theorem handleUpload_quota_invariant:
  assumes "x_password req = Some pw"
    and "bucketDir = join (data_dir cfg) [''uploads'', hashPassword h pw]"
    and "maxBytes = max_bucket_size_mb cfg * 1024 * 1024"
    and "\<forall>(shareId, now, req) \<in> set reqs. safe_names (form_files req) \<and> plain_name shareId"
    and "plain_name b"
    and "int (getDirSize root0 (join (data_dir cfg) [''uploads'', b])) \<le> maxBytes"
  shows "(int (getDirSize root bucketDir) + int (uploadSize (form_files req)) > maxBytes \<longrightarrow>
            snd (handleUpload cfg h shareId now req root) = root
          \<and> (\<forall>u. fst (handleUpload cfg h shareId now req root) \<noteq> ShareUrl u)
          \<and> (pw \<noteq> [] \<and> pw \<in> set (passwords cfg) \<and> form_files req \<noteq> [] \<longrightarrow>
               (\<exists>k. fst (handleUpload cfg h shareId now req root) = QuotaExceeded k)))
    \<and> (\<forall>u. fst (handleUpload cfg h shareId now req root) = ShareUrl u \<longrightarrow>
           int (getDirSize (snd (handleUpload cfg h shareId now req root)) bucketDir) \<le> maxBytes
         \<and> (\<forall>m es. lookup (snd (handleUpload cfg h shareId now req root)) bucketDir
                       = Some (Dir m es) \<and> accessible (Dir m es) \<longrightarrow>
                int (total_bytes (Dir m es)) \<le> maxBytes))
    \<and> (safe_names (form_files req) \<longrightarrow>
         (\<forall>D. \<not> prefix (join bucketDir [shareId]) D \<and> \<not> prefix D (join bucketDir [shareId]) \<longrightarrow>
              lookup (snd (handleUpload cfg h shareId now req root)) D = lookup root D))
    \<and> (\<forall>k \<le> length reqs.
           int (getDirSize (run_uploads cfg h (take k reqs) root0)
                  (join (data_dir cfg) [''uploads'', b])) \<le> maxBytes
         \<and> (\<forall>m es. lookup (run_uploads cfg h (take k reqs) root0)
                        (join (data_dir cfg) [''uploads'', b]) = Some (Dir m es)
                      \<and> accessible (Dir m es) \<longrightarrow>
                int (total_bytes (Dir m es)) \<le> maxBytes))"
proof (intro conjI allI impI)
  assume over: "int (getDirSize root bucketDir) + int (uploadSize (form_files req)) > maxBytes"
  then show "snd (handleUpload cfg h shareId now req root) = root"
    using assms(1-3) by (auto simp: handleUpload_def Let_def split: option.splits)
  show "fst (handleUpload cfg h shareId now req root) \<noteq> ShareUrl u" for u
    using over handleUpload_ShareUrl_fits [OF assms(1), of cfg h shareId now root u] assms(2,3)
    by auto
  assume "pw \<noteq> [] \<and> pw \<in> set (passwords cfg) \<and> form_files req \<noteq> []"
  with over assms(1-3) show "\<exists>k. fst (handleUpload cfg h shareId now req root) = QuotaExceeded k"
    by (simp add: handleUpload_over_quota)
next
  fix u
  assume "fst (handleUpload cfg h shareId now req root) = ShareUrl u"
  from handleUpload_bucket_bound [OF assms(1) this]
  show measured:
    "int (getDirSize (snd (handleUpload cfg h shareId now req root)) bucketDir) \<le> maxBytes"
    unfolding assms(2,3) .
  fix m es
  assume "lookup (snd (handleUpload cfg h shareId now req root)) bucketDir = Some (Dir m es)
      \<and> accessible (Dir m es)"
  then have "getDirSize (snd (handleUpload cfg h shareId now req root)) bucketDir
      = total_bytes (Dir m es)"
    by (intro getDirSize_accessible) simp_all
  with measured show "int (total_bytes (Dir m es)) \<le> maxBytes"
    by simp
next
  fix D
  assume safe: "safe_names (form_files req)"
    and "\<not> prefix (join bucketDir [shareId]) D \<and> \<not> prefix D (join bucketDir [shareId])"
  then have D: "\<not> prefix (join (join (data_dir cfg) [''uploads'', hashPassword h pw]) [shareId]) D"
    "\<not> prefix D (join (join (data_dir cfg) [''uploads'', hashPassword h pw]) [shareId])"
    unfolding assms(2) by blast+
  show "lookup (snd (handleUpload cfg h shareId now req root)) D = lookup root D"
    by (rule handleUpload_frame [OF assms(1) safe D])
next
  fix k
  assume "k \<le> length reqs"
  have "\<forall>(shareId, now, req) \<in> set (take k reqs). safe_names (form_files req) \<and> plain_name shareId"
    using assms(4) set_take_subset [of k reqs] by blast
  from run_uploads_keeps_bound [OF this assms(5) assms(6) [unfolded assms(3)]]
  show measured: "int (getDirSize (run_uploads cfg h (take k reqs) root0)
          (join (data_dir cfg) [''uploads'', b])) \<le> maxBytes"
    unfolding assms(3) .
  fix m es
  assume "lookup (run_uploads cfg h (take k reqs) root0) (join (data_dir cfg) [''uploads'', b])
        = Some (Dir m es)
      \<and> accessible (Dir m es)"
  then have "getDirSize (run_uploads cfg h (take k reqs) root0)
        (join (data_dir cfg) [''uploads'', b])
      = total_bytes (Dir m es)"
    by (intro getDirSize_accessible) simp_all
  with measured show "int (total_bytes (Dir m es)) \<le> maxBytes"
    by simp
qed

text \<open>
  At the quota: bucket \<^verbatim>\<open>abc\<close> holds 9 MB of its 10 MB. The upload of exactly 1 MB is
  answered with a link and leaves the bucket holding exactly its maximum; the upload of
  one more byte is then rejected with \<open>QuotaExceeded\<close> and leaves the tree as it is; and
  after the two uploads in a row the bucket measures at most its maximum.
\<close>

theorem handleUpload_quota_invariant_witness:
  "fst (handleUpload example_config example_hash ''s1'' 0
         (example_request [FileV ''a.bin'' (big_file 1048576)] None)
         (uploads_tree [(''abc'', Dir 0 [(''s0'', Dir 0 [(''f'', File (big_file 9437184) 0)])])]))
     = ShareUrl ''/d/abc/s1''
   \<and> total_bytes (Dir 0 [(''s0'', Dir 0 [(''f'', File (big_file 9437184) 0)]),
                          (''s1'', Dir 0 [(''a.bin'', File (big_file 1048576) 0)])])
     = 10485760
   \<and> int (total_bytes (Dir 0 [(''s0'', Dir 0 [(''f'', File (big_file 9437184) 0)]),
                               (''s1'', Dir 0 [(''a.bin'', File (big_file 1048576) 0)])]))
     \<le> 10 * 1024 * 1024
   \<and> snd (handleUpload example_config example_hash ''s2'' 0
         (example_request [FileV ''b.txt'' ''!''] None)
         (uploads_tree [(''abc'', Dir 0 [(''s0'', Dir 0 [(''f'', File (big_file 9437184) 0)]),
                                         (''s1'', Dir 0 [(''a.bin'', File (big_file 1048576) 0)])])]))
     = uploads_tree [(''abc'', Dir 0 [(''s0'', Dir 0 [(''f'', File (big_file 9437184) 0)]),
                                      (''s1'', Dir 0 [(''a.bin'', File (big_file 1048576) 0)])])]
   \<and> (\<exists>k. fst (handleUpload example_config example_hash ''s2'' 0
         (example_request [FileV ''b.txt'' ''!''] None)
         (uploads_tree [(''abc'', Dir 0 [(''s0'', Dir 0 [(''f'', File (big_file 9437184) 0)]),
                                         (''s1'', Dir 0 [(''a.bin'', File (big_file 1048576) 0)])])]))
       = QuotaExceeded k)
   \<and> int (getDirSize
         (run_uploads example_config example_hash
            [(''s1'', 0, example_request [FileV ''a.bin'' (big_file 1048576)] None),
             (''s2'', 0, example_request [FileV ''b.txt'' ''!''] None)]
            (uploads_tree [(''abc'', Dir 0 [(''s0'', Dir 0 [(''f'', File (big_file 9437184) 0)])])]))
         [''data'', ''uploads'', ''abc''])
     \<le> 10 * 1024 * 1024"
proof -
  let ?r1 = "example_request [FileV ''a.bin'' (big_file 1048576)] None"
  let ?r2 = "example_request [FileV ''b.txt'' ''!''] None"
  let ?reqs = "[(''s1'', 0::int, ?r1), (''s2'', 0::int, ?r2)]"
  let ?s0 = "(''s0'', Dir 0 [(''f'', File (big_file 9437184) 0)])"
  let ?es1 = "[?s0, (''s1'', Dir 0 [(''a.bin'', File (big_file 1048576) 0)])]"
  let ?root = "uploads_tree [(''abc'', Dir 0 [?s0])]"
  let ?root1 = "uploads_tree [(''abc'', Dir 0 ?es1)]"
  let ?B = "[''data'', ''uploads'', ''abc'']"
  have a1: "x_password ?r1 = Some ''pw''" and a2: "x_password ?r2 = Some ''pw''"
    by (simp_all add: example_request_def)
  have b: "?B = join (data_dir example_config) [''uploads'', hashPassword example_hash ''pw'']"
    by (simp add: example_bucket example_config_def join_def)
  have c: "10 * 1024 * 1024 = max_bucket_size_mb example_config * 1024 * 1024"
    by (simp add: example_config_def)
  have d: "\<forall>(shareId, now, req) \<in> set ?reqs. safe_names (form_files req) \<and> plain_name shareId"
    by (simp add: safe_names_def plain_name_def example_request_def)
  have e: "plain_name ''abc''"
    by (simp add: plain_name_def)
  have f: "int (getDirSize ?root (join (data_dir example_config) [''uploads'', ''abc'']))
      \<le> 10 * 1024 * 1024"
    by (simp add: getDirSize_def uploads_tree_def example_config_def join_def length_big_file)
  have g: "join (data_dir example_config) [''uploads'', ''abc''] = ?B"
    by (simp add: example_config_def join_def)
  have up1: "handleUpload example_config example_hash ''s1'' 0 ?r1 ?root
      = (ShareUrl ''/d/abc/s1'', ?root1)"
    by (simp add: handleUpload_def Bun_write_def join_slash_def example_bucket getDirSize_def
        uploads_tree_def example_request_def example_config_def Let_def join_def
        length_big_file)
  have look: "lookup ?root1 ?B = Some (Dir 0 ?es1)"
    by (simp add: uploads_tree_def)
  have acc: "accessible (Dir 0 ?es1)"
    by simp
  have over: "int (getDirSize ?root1 ?B) + int (uploadSize (form_files ?r2)) > 10 * 1024 * 1024"
    by (simp add: getDirSize_def uploads_tree_def example_request_def length_big_file)
  have pw: "''pw'' \<noteq> [] \<and> ''pw'' \<in> set (passwords example_config) \<and> form_files ?r2 \<noteq> []"
    by (simp add: example_config_def example_request_def)
  note inst1 = handleUpload_quota_invariant [OF a1 b c d e f,
      where root = "?root" and shareId = "''s1''" and now = 0]
  note inst2 = handleUpload_quota_invariant [OF a2 b c d e f,
      where root = "?root1" and shareId = "''s2''" and now = 0]
  note first = inst1 [THEN conjunct2, THEN conjunct1, rule_format, of "''/d/abc/s1''",
      unfolded up1 fst_conv snd_conv]
  note second = inst2 [THEN conjunct1, rule_format, OF over]
  note run = inst1 [THEN conjunct2, THEN conjunct2, THEN conjunct2, rule_format, of 2,
      unfolded g]
  have held: "int (total_bytes (Dir 0 ?es1)) \<le> 10 * 1024 * 1024"
    using first look acc by blast
  have exact: "total_bytes (Dir 0 ?es1) = 10485760"
    by (simp add: length_big_file)
  have unchanged: "snd (handleUpload example_config example_hash ''s2'' 0 ?r2 ?root1) = ?root1"
    using second by (rule conjunct1)
  have rejected: "\<exists>k. fst (handleUpload example_config example_hash ''s2'' 0 ?r2 ?root1)
      = QuotaExceeded k"
    using second pw by blast
  have seq: "int (getDirSize (run_uploads example_config example_hash ?reqs ?root) ?B)
      \<le> 10 * 1024 * 1024"
    using run by simp
  show ?thesis
    using up1 exact held unchanged rejected seq by simp
qed

text \<open>
  Over all buckets the invariant fails: an upload to bucket \<^verbatim>\<open>abc\<close> of one byte under the
  name \<^verbatim>\<open>../../bbb/s/x\<close> is answered with a link and leaves bucket \<^verbatim>\<open>bbb\<close>, which held
  exactly its 10 MB, one byte over the maximum.
\<close>

theorem handleUpload_other_bucket_counterexample:
  "fst (handleUpload example_config example_hash ''sid'' 0
         (example_request [FileV ''../../bbb/s/x'' ''!''] None)
         (uploads_tree [(''bbb'', Dir 0 [(''s'', Dir 0 [(''f'', File (big_file 10485760) 0)])])]))
     = ShareUrl ''/d/abc/sid''
   \<and> int (getDirSize
         (uploads_tree [(''bbb'', Dir 0 [(''s'', Dir 0 [(''f'', File (big_file 10485760) 0)])])])
         [''data'', ''uploads'', ''bbb''])
     = max_bucket_size_mb example_config * 1024 * 1024
   \<and> int (getDirSize
         (snd (handleUpload example_config example_hash ''sid'' 0
                 (example_request [FileV ''../../bbb/s/x'' ''!''] None)
                 (uploads_tree [(''bbb'', Dir 0 [(''s'', Dir 0 [(''f'', File (big_file 10485760) 0)])])])))
         [''data'', ''uploads'', ''bbb''])
     = max_bucket_size_mb example_config * 1024 * 1024 + 1"
  by (simp add: handleUpload_def Bun_write_def join_slash_def example_bucket getDirSize_def
        uploads_tree_def example_request_def example_config_def Let_def join_def length_big_file)

text \<open>
  The measured size is not the number of bytes held when an entry of the bucket cannot
  be accessed: \<open>getDirSize\<close> leaves its loop at that entry with the sum reached so far.
  With such an entry listed first in bucket \<^verbatim>\<open>abc\<close>, an upload of 10 MB and one of a
  further byte are both answered with a link; the bucket then measures 0 bytes and holds
  one byte more than its maximum.
\<close>

lemma handleUpload_unmeasured_bucket:
  "fst (handleUpload example_config example_hash ''s1'' 0
         (example_request [FileV ''a.bin'' (big_file 10485760)] None)
         (uploads_tree [(''abc'', Dir 0 [(''x'', Broken)])]))
     = ShareUrl ''/d/abc/s1''
   \<and> handleUpload example_config example_hash ''s2'' 0
         (example_request [FileV ''b.txt'' ''!''] None)
         (uploads_tree [(''abc'', Dir 0 [(''x'', Broken),
            (''s1'', Dir 0 [(''a.bin'', File (big_file 10485760) 0)])])])
     = (ShareUrl ''/d/abc/s2'',
        uploads_tree [(''abc'', Dir 0 [(''x'', Broken),
            (''s1'', Dir 0 [(''a.bin'', File (big_file 10485760) 0)]),
            (''s2'', Dir 0 [(''b.txt'', File ''!'' 0)])])])
   \<and> getDirSize
        (uploads_tree [(''abc'', Dir 0 [(''x'', Broken),
            (''s1'', Dir 0 [(''a.bin'', File (big_file 10485760) 0)]),
            (''s2'', Dir 0 [(''b.txt'', File ''!'' 0)])])])
        [''data'', ''uploads'', ''abc'']
     = 0
   \<and> int (total_bytes (Dir 0 [(''x'', Broken),
            (''s1'', Dir 0 [(''a.bin'', File (big_file 10485760) 0)]),
            (''s2'', Dir 0 [(''b.txt'', File ''!'' 0)])]))
     = max_bucket_size_mb example_config * 1024 * 1024 + 1"
  by (simp add: handleUpload_def Bun_write_def join_slash_def example_bucket getDirSize_def
        uploads_tree_def example_request_def example_config_def Let_def join_def length_big_file)

section \<open>From an upload to its download: proofs\<close>

lemma stored_files_entry:
  "(name, n) \<in> set (stored_files now files) \<Longrightarrow> \<exists>d. FileV name d \<in> set files \<and> n = File d now"
  by (induction now files rule: stored_files.induct) auto

lemma upd_entry_new: "s \<notin> fst ` set es \<Longrightarrow> upd_entry s n es = es @ [(s, n)]"
  by (induction es) auto

lemma put_file_in_dir:
  assumes "put_file now d (p @ [s]) (Some root) = Inr root'"
    and "lookup root p = Some (Dir m es)"
  shows "lookup root' p
     = Some (Dir (if map_of es s = None then now else m) (upd_entry s (File d now) es))"
  using assms
proof (induction p arbitrary: root root')
  case Nil
  then have root: "root = Dir m es" by simp
  from Nil.prems(1) obtain n where n: "put_file now d [] (map_of es s) = Inr n"
    and root': "root' = Dir (if map_of es s = None then now else m) (upd_entry s n es)"
    unfolding root by (auto split: sum.splits)
  from n have "n = File d now"
    by (cases "map_of es s"; cases "the (map_of es s)") auto
  with root' show ?case by simp
next
  case (Cons a p)
  from Cons.prems(2) obtain m0 es0 c where root: "root = Dir m0 es0"
    and c: "map_of es0 a = Some c" and look: "lookup c p = Some (Dir m es)"
    by (cases root) (auto split: option.splits)
  from Cons.prems(1) obtain n where n: "put_file now d (p @ [s]) (Some c) = Inr n"
    and root': "root' = Dir m0 (upd_entry a n es0)"
    unfolding root using c by (auto split: sum.splits)
  from Cons.IH [OF n look] show ?case
    unfolding root' by (simp add: map_of_upd_entry)
qed

lemma mkdir_p_new:
  assumes "mkdir_p now p no = Inr n'"
    and "case no of None \<Rightarrow> True | Some n \<Rightarrow> lookup n p = None"
  shows "lookup n' p = Some (Dir now [])"
  using assms
proof (induction p arbitrary: no n')
  case Nil
  then show ?case by (cases no) auto
next
  case (Cons s p)
  show ?case
  proof (cases no)
    case None
    with Cons.prems obtain n'' where "mkdir_p now p None = Inr n''" "n' = Dir now [(s, n'')]"
      by (auto split: sum.splits)
    with Cons.IH [of None n''] show ?thesis by simp
  next
    case (Some n)
    show ?thesis
    proof (cases n)
      case (Dir m es)
      with Some Cons.prems obtain n'' where n'': "mkdir_p now p (map_of es s) = Inr n''"
        and n': "n' = Dir (if map_of es s = None then now else m) (upd_entry s n'' es)"
        by (auto split: sum.splits)
      have "case map_of es s of None \<Rightarrow> True | Some c \<Rightarrow> lookup c p = None"
        using Cons.prems(2) Some Dir by (simp split: option.splits)
      from Cons.IH [OF n'' this] show ?thesis
        unfolding n' by (simp add: map_of_upd_entry)
    qed (use Some Cons.prems in simp_all)
  qed
qed

lemma write_files_in_dir:
  assumes "write_files now sd files root = (None, root')"
    and "lookup root sd = Some (Dir now es)"
    and "\<forall>name d. FileV name d \<in> set files \<longrightarrow> plain_name name"
    and "distinct (map fst (stored_files now files))"
    and "fst ` set es \<inter> fst ` set (stored_files now files) = {}"
  shows "lookup root' sd = Some (Dir now (es @ stored_files now files))"
  using assms
proof (induction now sd files root arbitrary: es rule: write_files.induct)
  case (1 now shareDir root)
  then show ?case by simp
next
  case (2 now shareDir name d files root)
  from "2.prems"(1) obtain root1
    where w1: "Bun_write now d (join shareDir [name]) (join_slash [name]) root = Inr root1"
      and rest: "write_files now shareDir files root1 = (None, root')"
    by (auto split: sum.splits)
  from "2.prems"(3) have plain: "plain_name name" by simp
  have new: "name \<notin> fst ` set es"
    using "2.prems"(5) by auto
  have "put_file now d (shareDir @ [name]) (Some root) = Inr root1"
    using Bun_write_Inr [OF w1] join_plain [OF plain] by simp
  from put_file_in_dir [OF this "2.prems"(2)]
  have look1: "lookup root1 shareDir = Some (Dir now (es @ [(name, File d now)]))"
    using new by (simp add: upd_entry_new)
  have "lookup root' shareDir = Some (Dir now ((es @ [(name, File d now)]) @ stored_files now files))"
  proof (rule "2.IH" [OF w1 rest look1])
    show "\<forall>name d. FileV name d \<in> set files \<longrightarrow> plain_name name"
      using "2.prems"(3) by simp
    show "distinct (map fst (stored_files now files))"
      using "2.prems"(4) by simp
    show "fst ` set (es @ [(name, File d now)]) \<inter> fst ` set (stored_files now files) = {}"
      using "2.prems"(4,5) by auto
  qed
  then show ?case by simp
next
  case (3 now shareDir t files root)
  then show ?case by simp
qed

text \<open>
  What an accepted upload creates. The share id is new (nothing is at the share's
  directory yet), and the files have distinct names, each a single path segment other
  than \<^verbatim>\<open>.burn\<close>. The share's directory then holds exactly the uploaded files, in the
  order of the form, and after them the empty marker when \<^verbatim>\<open>burn = "true"\<close> was sent: only
  regular files, each name once.
\<close>

lemma handleUpload_creates_share:
  assumes pw: "x_password req = Some pw"
    and sd: "shareDir = join (join (data_dir cfg) [''uploads'', hashPassword h pw]) [shareId]"
    and fresh: "lookup root shareDir = None"
    and names: "\<forall>name d. FileV name d \<in> set (form_files req) \<longrightarrow> plain_name name \<and> name \<noteq> ''.burn''"
    and dist: "distinct (map fst (stored_files now (form_files req)))"
    and ok: "fst (handleUpload cfg h shareId now req root) = ShareUrl u"
  shows "lookup (snd (handleUpload cfg h shareId now req root)) shareDir
     = Some (Dir now (stored_files now (form_files req)
                      @ (if form_burn req = Some (TextV ''true'')
                         then [(''.burn'', File [] now)] else [])))"
proof -
  from ok pw obtain root1 root2
    where mk: "mkdir_p now shareDir (Some root) = Inr root1"
      and wr: "write_files now shareDir (form_files req) root1 = (None, root2)"
      and fin: "if form_burn req = Some (TextV ''true'')
          then \<exists>root3. Bun_write now [] (join shareDir [''.burn'']) (join_slash [''.burn'']) root2
                 = Inr root3 \<and> snd (handleUpload cfg h shareId now req root) = root3
          else snd (handleUpload cfg h shareId now req root) = root2"
    unfolding sd
    by (auto simp: handleUpload_def Let_def split: if_splits sum.splits prod.splits option.splits)
  have "lookup root1 shareDir = Some (Dir now [])"
    using mk fresh by (intro mkdir_p_new [of now shareDir "Some root"]) simp_all
  then have look2: "lookup root2 shareDir = Some (Dir now ([] @ stored_files now (form_files req)))"
    using wr names dist by (intro write_files_in_dir [of now shareDir "form_files req" root1]) auto
  show ?thesis
  proof (cases "form_burn req = Some (TextV ''true'')")
    case False
    with fin look2 show ?thesis by simp
  next
    case True
    with fin obtain root3
      where b: "Bun_write now [] (join shareDir [''.burn'']) (join_slash [''.burn'']) root2 = Inr root3"
        and r3: "snd (handleUpload cfg h shareId now req root) = root3"
      by auto
    have nb: "''.burn'' \<notin> fst ` set (stored_files now (form_files req))"
      using names stored_files_entry by fastforce
    have "put_file now [] (shareDir @ [''.burn'']) (Some root2) = Inr root3"
      using Bun_write_Inr [OF b] by (simp add: join_burn)
    from put_file_in_dir [OF this] look2
    show ?thesis
      using nb True r3 by (simp add: upd_entry_new)
  qed
qed


lemma split_slash_append:
  "CHR ''/'' \<notin> set a \<Longrightarrow> split_slash (a @ CHR ''/'' # b) = a # split_slash b"
  by (induction a) auto

lemma share_url_parts:
  assumes "plain_name bucket" and "plain_name shareId"
  shows "filter (\<lambda>s. s \<noteq> []) (split_slash (''/d/'' @ bucket @ ''/'' @ shareId))
     = ''d'' # bucket # shareId # []"
proof -
  have "split_slash (bucket @ CHR ''/'' # shareId) = [bucket, shareId]"
    using assms by (simp add: split_slash_append split_slash_no_slash plain_name_def)
  then show ?thesis
    using assms by (simp add: plain_name_def)
qed

lemma stored_files_is_file:
  "(name, n) \<in> set (stored_files now files) \<Longrightarrow> is_file n"
  using stored_files_entry [of name n now files] by (auto simp: is_file_def)

text \<open>
  From the upload to the download: the link that such an upload is answered with
  downloads as exactly the uploaded files, the one file as it is or the archive of all
  of them.
\<close>

lemma upload_then_download:
  assumes pw: "x_password req = Some pw"
    and sid: "plain_name shareId"
    and fresh: "lookup root (join (join (data_dir cfg) [''uploads'', hashPassword h pw]) [shareId])
                  = None"
    and names: "\<forall>name d. FileV name d \<in> set (form_files req) \<longrightarrow>
                  plain_name name \<and> name \<noteq> ''.burn''"
    and dist: "distinct (map fst (stored_files now (form_files req)))"
    and ok: "fst (handleUpload cfg h shareId now req root) = ShareUrl u"
    and files: "files = stored_files now (form_files req)"
  shows "(\<forall>f n. files = [(f, n)] \<longrightarrow>
            fst (handleDownload cfg mime t u (snd (handleUpload cfg h shareId now req root))) =
              FileResponse f (if mime f = [] then ''application/octet-stream'' else mime f)
                (Inr (contents n)))
       \<and> (length files > 1 \<longrightarrow>
            fst (handleDownload cfg mime t u (snd (handleUpload cfg h shareId now req root))) =
              ZipResponse (shareId @ ''.zip'') (map (\<lambda>(f, n). (f, Inr (contents n))) files))"
proof -
  let ?bucket = "hashPassword h pw"
  let ?sd = "join (join (data_dir cfg) [''uploads'', ?bucket]) [shareId]"
  let ?root' = "snd (handleUpload cfg h shareId now req root)"
  let ?marker = "if form_burn req = Some (TextV ''true'') then [(''.burn'', File [] now)] else []"
  let ?es = "files @ ?marker"
  have u: "u = ''/d/'' @ ?bucket @ ''/'' @ shareId"
    using ok pw
    by (auto simp: handleUpload_def Let_def split: if_splits sum.splits prod.splits option.splits)
  have parts: "filter (\<lambda>s. s \<noteq> []) (split_slash u) = ''d'' # ?bucket # shareId # []"
    unfolding u using hashPassword_plain sid by (rule share_url_parts)
  have "join (data_dir cfg) ([''uploads'', ?bucket] @ [shareId])
      = join (data_dir cfg) [''uploads'', ?bucket] @ [shareId]"
    using sid by (rule join_last_plain)
  then have sd: "join (data_dir cfg) [''uploads'', ?bucket, shareId] = ?sd"
    using join_plain [OF sid] by simp
  have dir: "lookup ?root' (join (data_dir cfg) [''uploads'', ?bucket, shareId])
      = Some (Dir now ?es)"
    unfolding sd files by (rule handleUpload_creates_share [OF pw refl fresh names dist ok])
  have nb: "''.burn'' \<notin> fst ` set files"
    unfolding files using names stored_files_entry by fastforce
  have d: "distinct (map fst ?es)"
    using dist nb by (simp add: files)
  have r: "\<forall>(f, n) \<in> set ?es. plain_name f \<and> is_file n"
  proof -
    have "plain_name f \<and> is_file n" if "(f, n) \<in> set files" for f n
      using that names stored_files_entry [of f n now "form_files req"] stored_files_is_file
      unfolding files by blast
    then show ?thesis
      by (auto simp: plain_name_def is_file_def)
  qed
  have f: "files = filter (\<lambda>(f, n). f \<noteq> ''.burn'') ?es"
  proof -
    have "filter (\<lambda>(f, n). f \<noteq> ''.burn'') files = files"
      using nb by (intro filter_True) force
    then show ?thesis by simp
  qed
  show ?thesis
    using parts dir d r f by (rule handleDownload_regular_share)
qed

text \<open>
  For one: two files and \<^verbatim>\<open>burn = "true"\<close>, uploaded to the empty tree and downloaded
  through the link.
\<close>

lemma upload_then_download_example:
  "fst (handleUpload example_config example_hash ''sid'' 0
         (example_request [FileV ''a.txt'' ''A'', FileV ''b.txt'' ''B''] (Some (TextV ''true'')))
         (uploads_tree []))
     = ShareUrl ''/d/abc/sid''
   \<and> fst (handleDownload example_config (\<lambda>name. []) 5 ''/d/abc/sid''
       (snd (handleUpload example_config example_hash ''sid'' 0
         (example_request [FileV ''a.txt'' ''A'', FileV ''b.txt'' ''B''] (Some (TextV ''true'')))
         (uploads_tree []))))
     = ZipResponse ''sid.zip'' [(''a.txt'', Inr ''A''), (''b.txt'', Inr ''B'')]"
proof -
  let ?req = "example_request [FileV ''a.txt'' ''A'', FileV ''b.txt'' ''B''] (Some (TextV ''true''))"
  let ?files = "[(''a.txt'', File ''A'' 0), (''b.txt'', File ''B'' 0)]"
  have ok: "fst (handleUpload example_config example_hash ''sid'' 0 ?req (uploads_tree []))
      = ShareUrl ''/d/abc/sid''"
    by (simp add: handleUpload_def Bun_write_def join_slash_def example_bucket getDirSize_def
        uploads_tree_def example_request_def example_config_def Let_def join_def)
  have pw: "x_password ?req = Some ''pw''"
    by (simp add: example_request_def)
  have sid: "plain_name ''sid''"
    by (simp add: plain_name_def)
  have fresh: "lookup (uploads_tree [])
      (join (join (data_dir example_config) [''uploads'', hashPassword example_hash ''pw''])
         [''sid'']) = None"
    by (simp add: example_bucket uploads_tree_def example_config_def join_def)
  have names: "\<forall>name d. FileV name d \<in> set (form_files ?req) \<longrightarrow>
      plain_name name \<and> name \<noteq> ''.burn''"
    by (auto simp: example_request_def plain_name_def)
  have dist: "distinct (map fst (stored_files 0 (form_files ?req)))"
    by (simp add: example_request_def)
  have files: "?files = stored_files 0 (form_files ?req)"
    by (simp add: example_request_def)
  from upload_then_download [OF pw sid fresh names dist ok files, of "\<lambda>name. []" 5]
  have "fst (handleDownload example_config (\<lambda>name. []) 5 ''/d/abc/sid''
       (snd (handleUpload example_config example_hash ''sid'' 0 ?req (uploads_tree []))))
     = ZipResponse ''sid.zip'' [(''a.txt'', Inr ''A''), (''b.txt'', Inr ''B'')]"
    by simp
  with ok show ?thesis by (rule conjI)
qed

section \<open>Expiry sweep: what a run does\<close>

text \<open>
  The examples run the sweep with a TTL of 7 days at the time of 8 days
  (\<open>691200000\<close> ms): a share last modified at time 0 has expired.
\<close>

text \<open>
  Claim C5 at a tree of two buckets with one expired share each. The sweep removes the
  share of the first bucket and finds the bucket empty; \<^verbatim>\<open>rm(bucketPath)\<close>, called
  without \<^verbatim>\<open>recursive\<close>, rejects the directory, and the exception leaves the outer
  \<^verbatim>\<open>try\<close>: the sweep ends. The empty bucket \<^verbatim>\<open>aaa\<close> is still there, and so is the expired
  share \<^verbatim>\<open>bbb/s2\<close>.
\<close>

theorem sweep_empty_bucket_aborts:
  "cleanupExpiredShares example_config 691200000
     (uploads_tree [(''aaa'', Dir 0 [(''s1'', expired_share)]),
                    (''bbb'', Dir 0 [(''s2'', expired_share)])])
   = (Some EISDIR,
      uploads_tree [(''aaa'', Dir 691200000 []),
                    (''bbb'', Dir 0 [(''s2'', expired_share)])])"
  by (simp add: cleanupExpiredShares_def HOUR_MS_def uploads_tree_def readdir_def stat_mtimeMs_def
      join_def remove_entry_def expired_share_def Let_def example_config_def)

text \<open>
  Claim C7 at a tree in which \<^verbatim>\<open>uploads\<close> lists an entry that is no directory before a
  bucket with an expired share. \<^verbatim>\<open>readdir(bucketPath)\<close> fails on the entry, the exception
  leaves the outer \<^verbatim>\<open>try\<close>, and the sweep ends without visiting the bucket after it: the
  tree is unchanged and the expired share \<^verbatim>\<open>bbb/s2\<close> stays.
\<close>

theorem sweep_unreadable_bucket_aborts:
  "cleanupExpiredShares example_config 691200000
     (uploads_tree [(''notes.txt'', File ''x'' 0),
                    (''bbb'', Dir 0 [(''s2'', expired_share)])])
   = (Some ENOTDIR,
      uploads_tree [(''notes.txt'', File ''x'' 0),
                    (''bbb'', Dir 0 [(''s2'', expired_share)])])"
  by (simp add: cleanupExpiredShares_def HOUR_MS_def uploads_tree_def readdir_def stat_mtimeMs_def
      join_def remove_entry_def expired_share_def Let_def example_config_def)

text \<open>
  Inside a bucket the inner \<^verbatim>\<open>try\<close> does skip: a share that cannot be accessed is passed
  over, the expired share listed after it is removed, and a share modified at the time of
  the sweep is kept.
\<close>

lemma sweep_skips_broken_share:
  "cleanupExpiredShares example_config 691200000
     (uploads_tree [(''aaa'', Dir 0 [(''s0'', Broken), (''s1'', expired_share), (''s3'', Dir 691200000 [])])])
   = (None,
      uploads_tree [(''aaa'', Dir 691200000 [(''s0'', Broken), (''s3'', Dir 691200000 [])])])"
  by (simp add: cleanupExpiredShares_def HOUR_MS_def uploads_tree_def readdir_def stat_mtimeMs_def
      join_def remove_entry_def expired_share_def Let_def example_config_def)

end
